theory Spec2Isabelle
  imports Main "HOL-Library.Char_ord" "HOL-Library.List_Lexorder" "HOL-Library.Sublist"
    "HOL-Library.Multiset"
begin

section \<open>Data model of \<open>dagcategory/models.py\<close>\<close>

text \<open>
  A \<open>DAGCategory\<close> instance is a record of its columns.  \<open>pk\<close> is \<open>None\<close> for an
  instance that was never stored, \<open>parent\<close> is the foreign key column \<open>parent_id\<close>
  (\<open>None\<close> for SQL NULL) and \<open>sites\<close> lists the ids of the related \<open>Site\<close> rows.
  The table is the list of its rows.  A queryset is modelled by the list of the rows it
  returns, in the order it asks for; the default order is \<open>Meta.ordering = ['order']\<close>.
\<close>

record node =
  pk :: "nat option"
  name :: string
  slug :: string
  sites :: "nat list"
  parent :: "nat option"
  path :: string
  order :: nat

type_synonym db = "node list"

datatype error =
    AssertionError          \<comment> \<open>\<open>assert p.pk not in parents, "Circular Parenting is not allowed"\<close>\<close>
  | DoesNotExist            \<comment> \<open>a lookup by primary key or by path that finds no row\<close>
  | MultipleObjectsReturned \<comment> \<open>\<open>get\<close> finding more than one row\<close>
  | IntegrityError          \<comment> \<open>the \<open>unique=True\<close> constraint of \<open>path\<close> refusing a write\<close>
  | RecursionError          \<comment> \<open>the interpreter's bound on nested calls\<close>
  | AttributeError          \<comment> \<open>reading an attribute of \<open>None\<close>\<close>

definition DELIMETER :: string where
  "DELIMETER = ''::''"

subsection \<open>The string operations the source uses\<close>

text \<open>\<open>sep.join(items)\<close>.\<close>

fun join :: "string \<Rightarrow> string list \<Rightarrow> string" where
  "join sep [] = []"
| "join sep [x] = x"
| "join sep (x # y # ys) = x @ sep @ join sep (y # ys)"

text \<open>
  \<open>s.split('::')\<close>: the pieces between the occurrences of the delimiter, found from the
  left without overlap.  The first argument is the piece being read, reversed.
\<close>

fun split_delim :: "string \<Rightarrow> string \<Rightarrow> string list" where
  "split_delim acc [] = [rev acc]"
| "split_delim acc [a] = [rev (a # acc)]"
| "split_delim acc (a # b # cs) =
     (if a = CHR '':'' \<and> b = CHR '':'' then rev acc # split_delim [] cs
      else split_delim (a # acc) (b # cs))"

text \<open>\<open>s.count('::')\<close>: the number of occurrences, counted from the left without overlap.\<close>

fun count_delim :: "string \<Rightarrow> nat" where
  "count_delim (a # b # cs) =
     (if a = CHR '':'' \<and> b = CHR '':'' then Suc (count_delim cs) else count_delim (b # cs))"
| "count_delim cs = 0"

text \<open>\<open>url.split('/')\<close>.\<close>

fun split_slash :: "string \<Rightarrow> string \<Rightarrow> string list" where
  "split_slash acc [] = [rev acc]"
| "split_slash acc (c # cs) =
     (if c = CHR ''/'' then rev acc # split_slash [] cs else split_slash (c # acc) cs)"

subsection \<open>Rows and the storage operations\<close>

text \<open>The row with a given primary key, as following a foreign key fetches it.\<close>

definition get_pk :: "db \<Rightarrow> nat \<Rightarrow> node option" where
  "get_pk rows k = find (\<lambda>r. pk r = Some k) rows"

text \<open>
  \<open>Model.save\<close> of Django: an instance without primary key is inserted under a fresh one,
  an instance whose primary key is stored replaces that row, any other instance is
  inserted as it is.  The write is refused when another row already has the path.
\<close>

definition next_pk :: "db \<Rightarrow> nat" where
  "next_pk rows = Suc (fold max (map (\<lambda>r. case pk r of None \<Rightarrow> 0 | Some k \<Rightarrow> k) rows) 0)"

definition super_save :: "db \<Rightarrow> node \<Rightarrow> error + db \<times> node" where
  "super_save rows self =
     (let self' = (case pk self of None \<Rightarrow> self\<lparr>pk := Some (next_pk rows)\<rparr> | Some k \<Rightarrow> self)
      in if \<exists>r \<in> set rows. pk r \<noteq> pk self' \<and> path r = path self' then Inl IntegrityError
         else if \<exists>r \<in> set rows. pk r = pk self'
              then Inr (map (\<lambda>r. if pk r = pk self' then self' else r) rows, self')
              else Inr (rows @ [self'], self'))"

text \<open>\<open>self.children.all()\<close>: the rows whose parent is this instance, in the default order.\<close>

definition children :: "db \<Rightarrow> node \<Rightarrow> node list" where
  "children rows self = sort_key order (filter (\<lambda>r. pk self \<noteq> None \<and> parent r = pk self) rows)"

section \<open>\<open>DAGCategory.save\<close> and \<open>DAGCategory.update_path\<close>\<close>

text \<open>
  The loop of \<open>save\<close> that walks the parent chain: \<open>parents\<close> is the set of primary keys
  seen so far, \<open>p\<close> the instance reached and \<open>pth\<close> the path built so far.  Every step
  fetches the parent row of \<open>p\<close>, so the number of stored rows whose key is not yet in
  \<open>parents\<close> decreases.
\<close>

function walk :: "db \<Rightarrow> nat option list \<Rightarrow> node \<Rightarrow> string \<Rightarrow> error + string" where
  "walk rows parents p pth =
     (case parent p of
        None \<Rightarrow> Inr pth
      | Some q \<Rightarrow>
          (case get_pk rows q of
             None \<Rightarrow> Inl DoesNotExist
           | Some p' \<Rightarrow>
               if pk p' \<in> set parents then Inl AssertionError
               else walk rows (pk p' # parents) p' (slug p' @ DELIMETER @ pth)))"
  by pat_completeness auto
termination
proof (relation "measure (\<lambda>(rows, parents, p, pth). length (filter (\<lambda>r. pk r \<notin> set parents) rows))")
  show "wf (measure (\<lambda>(rows, parents, p, pth). length (filter (\<lambda>r. pk r \<notin> set parents) rows)))"
    by simp
next
  fix rows :: db and parents :: "nat option list" and p :: node and pth :: string
    and q :: nat and p' :: node
  assume "get_pk rows q = Some p'" and fresh: "pk p' \<notin> set parents"
  then have mem: "p' \<in> set rows"
    by (auto simp: get_pk_def find_Some_iff)
  have "filter (\<lambda>r. pk r \<notin> set (pk p' # parents)) rows
        = filter (\<lambda>r. pk r \<noteq> pk p') (filter (\<lambda>r. pk r \<notin> set parents) rows)"
    by (induction rows) auto
  moreover have "length (filter (\<lambda>r. pk r \<noteq> pk p') (filter (\<lambda>r. pk r \<notin> set parents) rows))
        < length (filter (\<lambda>r. pk r \<notin> set parents) rows)"
    by (rule length_filter_less [of p']) (use mem fresh in auto)
  ultimately have "length (filter (\<lambda>r. pk r \<notin> set (pk p' # parents)) rows)
        < length (filter (\<lambda>r. pk r \<notin> set parents) rows)"
    by simp
  then show "((rows, pk p' # parents, p', slug p' @ DELIMETER @ pth), (rows, parents, p, pth))
        \<in> measure (\<lambda>(rows, parents, p, pth). length (filter (\<lambda>r. pk r \<notin> set parents) rows))"
    by simp
qed

text \<open>The first half of \<open>save\<close>: the path of \<open>self\<close>, or the assertion failing.\<close>

definition compute_path :: "db \<Rightarrow> node \<Rightarrow> error + string" where
  "compute_path rows self = walk rows [pk self] self (slug self)"

text \<open>
  \<open>save\<close>, the loop over \<open>self.children.all()\<close> at its end, and \<open>update_path\<close>, which calls
  \<open>save\<close> again.  The first argument bounds how deep \<open>update_path\<close> may still nest before the
  interpreter raises \<open>RecursionError\<close>.  Every function returns the table as the call
  leaves it, also when an exception ends the call, and \<open>save\<close> returns \<open>self\<close> as it is
  after a call that did not raise.
\<close>

fun save :: "nat \<Rightarrow> db \<Rightarrow> node \<Rightarrow> db \<times> (error + node)"
  and save_children :: "nat \<Rightarrow> db \<Rightarrow> node \<Rightarrow> node list \<Rightarrow> db \<times> (error + unit)"
  and update_path :: "nat \<Rightarrow> db \<Rightarrow> node \<Rightarrow> string \<Rightarrow> db \<times> (error + node)"
where
  "save fuel rows self =
     (case compute_path rows self of
        Inl e \<Rightarrow> (rows, Inl e)
      | Inr new_path \<Rightarrow>
          (case super_save rows (self\<lparr>path := new_path\<rparr>) of
             Inl e \<Rightarrow> (rows, Inl e)
           | Inr (rows', self') \<Rightarrow>
               (case save_children fuel rows' self' (children rows' self') of
                  (rows'', Inl e) \<Rightarrow> (rows'', Inl e)
                | (rows'', Inr u) \<Rightarrow> (rows'', Inr self'))))"
| "save_children fuel rows self [] = (rows, Inr ())"
| "save_children fuel rows self (c # cs) =
     (case update_path fuel rows c (path self) of
        (rows', Inl e) \<Rightarrow> (rows', Inl e)
      | (rows', Inr c') \<Rightarrow> save_children fuel rows' self cs)"
| "update_path 0 rows self path_so_far = (rows, Inl RecursionError)"
| "update_path (Suc fuel) rows self path_so_far =
     save fuel rows (self\<lparr>path := path_so_far @ DELIMETER @ slug self\<rparr>)"

section \<open>The properties and queries of \<open>DAGCategory\<close>\<close>

definition depth :: "node \<Rightarrow> nat" where
  "depth self = count_delim (path self)"

definition leaf_node :: "db \<Rightarrow> node \<Rightarrow> bool" where
  "leaf_node rows self = (length (children rows self) = 0)"

definition inner_node :: "db \<Rightarrow> node \<Rightarrow> bool" where
  "inner_node rows self = (\<not> leaf_node rows self)"

text \<open>
  \<open>DAGCategoryManager.live\<close>; the first argument is \<open>settings.SITE_ID\<close>.  The other manager
  methods filter its rows further.
\<close>

definition live :: "nat \<Rightarrow> db \<Rightarrow> node list" where
  "live site_id rows = sort_key order (filter (\<lambda>r. site_id \<in> set (sites r)) rows)"

definition toplevel :: "nat \<Rightarrow> db \<Rightarrow> node list" where
  "toplevel site_id rows = filter (\<lambda>r. parent r = None) (live site_id rows)"

definition leaf_nodes :: "nat \<Rightarrow> db \<Rightarrow> node list" where
  "leaf_nodes site_id rows = filter (\<lambda>r. children rows r = []) (live site_id rows)"

text \<open>
  \<open>filter(children__isnull=False)\<close> joins every row with its children, so a row that has
  children comes once for each of them.
\<close>

definition inner_nodes :: "nat \<Rightarrow> db \<Rightarrow> node list" where
  "inner_nodes site_id rows =
     concat (map (\<lambda>r. map (\<lambda>c. r) (children rows r)) (live site_id rows))"

definition subcategories :: "nat \<Rightarrow> db \<Rightarrow> node \<Rightarrow> node list" where
  "subcategories site_id rows self = filter (\<lambda>r. site_id \<in> set (sites r)) (children rows self)"

definition all_children :: "nat \<Rightarrow> db \<Rightarrow> node \<Rightarrow> node list" where
  "all_children site_id rows self =
     filter (\<lambda>r. prefix (path self @ DELIMETER) (path r)) (live site_id rows)"

text \<open>
  \<open>subtree\<close> is the union \<open>|\<close> of two querysets: the rows that either of them selects.
  The first one, \<open>type(self).objects.filter(pk=self.pk)\<close>, does not go through \<open>live\<close>.
  The union keeps the join with the sites that \<open>live\<close> has made, as an outer join, so the
  row of the node itself comes once for every site it is on, and once when it is on none.
\<close>

definition subtree :: "nat \<Rightarrow> db \<Rightarrow> node \<Rightarrow> node list" where
  "subtree site_id rows self =
     sort_key order
       (concat (map (\<lambda>r. if pk self \<noteq> None \<and> pk r = pk self
                          then replicate (max 1 (length (sites r))) r
                          else if r \<in> set (all_children site_id rows self) then [r] else [])
          rows))"

text \<open>
  The loop of \<open>branch\<close> over \<open>self.path.split(self.DELIMETER)\<close>: the paths whose rows it
  adds to the queryset, one for every slug appended to \<open>path_so_far\<close>.
\<close>

fun branch_paths :: "string list \<Rightarrow> string list \<Rightarrow> string list" where
  "branch_paths path_so_far [] = []"
| "branch_paths path_so_far (s # ss) =
     join DELIMETER (path_so_far @ [s]) # branch_paths (path_so_far @ [s]) ss"

text \<open>\<open>order_by('-path')\<close> is the descending order of the paths.\<close>

definition branch :: "db \<Rightarrow> node \<Rightarrow> node list" where
  "branch rows self =
     rev (sort_key path
       (filter (\<lambda>r. path r \<in> set (branch_paths [] (split_delim [] (path self)))) rows))"

definition travel_up :: "db \<Rightarrow> node \<Rightarrow> node list" where
  "travel_up rows self = filter (\<lambda>r. pk r \<noteq> pk self) (branch rows self)"

text \<open>\<open>reverse()\<close> asks for the rows of the queryset in the opposite order.\<close>

definition parents :: "db \<Rightarrow> node \<Rightarrow> node list" where
  "parents rows self = rev (travel_up rows self)"

section \<open>\<open>DAGCategoryManager.select_from_url\<close>\<close>

text \<open>\<open>self.live().get(path=path)\<close>.\<close>

definition get_path :: "nat \<Rightarrow> db \<Rightarrow> string \<Rightarrow> error + node" where
  "get_path site_id rows pth =
     (case filter (\<lambda>r. path r = pth) (live site_id rows) of
        [] \<Rightarrow> Inl DoesNotExist
      | [r] \<Rightarrow> Inr r
      | r # r' # rs \<Rightarrow> Inl MultipleObjectsReturned)"

text \<open>
  The \<open>while\<close> loop of \<open>select_from_url\<close>.  \<open>limit\<close> is a Python integer.  The last argument
  and the first component of the result are the paths looked up in the storage so far,
  in the order of the lookups; the second component is what the function returns, or the
  exception that \<open>ObjectDoesNotExist\<close> does not catch.
\<close>

function select_loop ::
  "nat \<Rightarrow> db \<Rightarrow> string list \<Rightarrow> string list \<Rightarrow> int \<Rightarrow> string list
     \<Rightarrow> string list \<times> (error + node option \<times> string list)" where
  "select_loop site_id rows items extras limit looked =
     (if items \<noteq> [] \<and> limit \<noteq> 0 then
        (case get_path site_id rows (join DELIMETER items) of
           Inl e \<Rightarrow>
             if e = DoesNotExist
             then select_loop site_id rows (butlast items) (last items # extras) (limit - 1)
                    (looked @ [join DELIMETER items])
             else (looked @ [join DELIMETER items], Inl e)
         | Inr category \<Rightarrow> (looked @ [join DELIMETER items], Inr (Some category, extras)))
      else (looked, Inr (None, extras)))"
  by pat_completeness auto
termination
  by (relation "measure (\<lambda>(site_id, rows, items, extras, limit, looked). length items)") auto

definition select_from_url ::
  "nat \<Rightarrow> db \<Rightarrow> string \<Rightarrow> int \<Rightarrow> string list \<times> (error + node option \<times> string list)" where
  "select_from_url site_id rows url limit =
     select_loop site_id rows (split_slash [] url) []
       (if limit \<noteq> - 1 then limit + 1 else limit) []"

section \<open>\<open>DAGCategoryManager.build_tree_structure\<close>\<close>

text \<open>
  The objects of the evaluated queryset are named by their position in it.  A reference
  is \<open>None\<close>, one of these objects, or an object that reading a \<open>parent\<close> attribute fetched
  through the foreign key; the latter has no \<open>children_list\<close>.  The state of the loop is
  the \<open>parent\<close> attributes assigned so far, the \<open>children_list\<close> attributes and the list
  \<open>ret\<close>.
\<close>

datatype pyref = PyNone | Row nat | Loaded node

record tstate =
  parent_attr :: "nat \<rightharpoonup> pyref"
  children_list :: "nat \<rightharpoonup> nat list"
  ret :: "nat list"

definition follow_fk :: "db \<Rightarrow> node \<Rightarrow> error + pyref" where
  "follow_fk rows r =
     (case parent r of
        None \<Rightarrow> Inr PyNone
      | Some q \<Rightarrow> (case get_pk rows q of None \<Rightarrow> Inl DoesNotExist | Some r' \<Rightarrow> Inr (Loaded r')))"

fun read_depth :: "node list \<Rightarrow> pyref \<Rightarrow> error + nat" where
  "read_depth qs PyNone = Inl AttributeError"
| "read_depth qs (Row i) = Inr (depth (qs ! i))"
| "read_depth qs (Loaded r) = Inr (depth r)"

fun read_parent :: "db \<Rightarrow> node list \<Rightarrow> tstate \<Rightarrow> pyref \<Rightarrow> error + pyref" where
  "read_parent rows qs st PyNone = Inl AttributeError"
| "read_parent rows qs st (Row i) =
     (case parent_attr st i of Some r \<Rightarrow> Inr r | None \<Rightarrow> follow_fk rows (qs ! i))"
| "read_parent rows qs st (Loaded r) = follow_fk rows r"

text \<open>\<open>while previous.depth > node.depth: previous = previous.parent\<close>, for a node of depth \<open>d\<close>.\<close>

partial_function (option) wind_back ::
  "db \<Rightarrow> node list \<Rightarrow> tstate \<Rightarrow> pyref \<Rightarrow> nat \<Rightarrow> (error + pyref) option" where
  "wind_back rows qs st previous d =
     (case read_depth qs previous of
        Inl e \<Rightarrow> Some (Inl e)
      | Inr pd \<Rightarrow>
          if pd > d then
            (case read_parent rows qs st previous of
               Inl e \<Rightarrow> Some (Inl e)
             | Inr p \<Rightarrow> wind_back rows qs st p d)
          else Some (Inr previous))"

text \<open>\<open>node.parent.children_list.append(node)\<close> for the object at position \<open>i\<close>.\<close>

fun append_child :: "tstate \<Rightarrow> pyref \<Rightarrow> nat \<Rightarrow> error + tstate" where
  "append_child st (Row j) i =
     (case children_list st j of
        None \<Rightarrow> Inl AttributeError
      | Some cl \<Rightarrow> Inr (st\<lparr>children_list := (children_list st)(j \<mapsto> cl @ [i])\<rparr>))"
| "append_child st r i = Inl AttributeError"

text \<open>The body of the \<open>for\<close> loop, for the object at position \<open>i\<close>.\<close>

definition tree_step ::
  "db \<Rightarrow> node list \<Rightarrow> nat \<Rightarrow> tstate \<Rightarrow> pyref \<Rightarrow> (error + tstate) option" where
  "tree_step rows qs i st0 previous0 =
     (let st = st0\<lparr>children_list := (children_list st0)(i \<mapsto> [])\<rparr> in
      if depth (qs ! i) \<noteq> 0 then
        (case wind_back rows qs st previous0 (depth (qs ! i)) of
           None \<Rightarrow> None
         | Some (Inl e) \<Rightarrow> Some (Inl e)
         | Some (Inr previous) \<Rightarrow>
             (case read_depth qs previous of
                Inl e \<Rightarrow> Some (Inl e)
              | Inr pd \<Rightarrow>
                  if pd = depth (qs ! i) then
                    (case read_parent rows qs st previous of
                       Inl e \<Rightarrow> Some (Inl e)
                     | Inr pp \<Rightarrow>
                         Some (append_child (st\<lparr>parent_attr := (parent_attr st)(i \<mapsto> pp)\<rparr>) pp i))
                  else
                    Some (append_child (st\<lparr>parent_attr := (parent_attr st)(i \<mapsto> previous)\<rparr>)
                            previous i)))
      else Some (Inr (st\<lparr>ret := ret st @ [i]\<rparr>)))"

fun tree_loop ::
  "db \<Rightarrow> node list \<Rightarrow> nat list \<Rightarrow> tstate \<Rightarrow> pyref \<Rightarrow> (error + tstate) option" where
  "tree_loop rows qs [] st previous = Some (Inr st)"
| "tree_loop rows qs (i # is) st previous =
     (case tree_step rows qs i st previous of
        None \<Rightarrow> None
      | Some (Inl e) \<Rightarrow> Some (Inl e)
      | Some (Inr st') \<Rightarrow> tree_loop rows qs is st' (Row i))"

text \<open>
  \<open>build_tree_structure\<close>: \<open>qs\<close> defaults to the live rows and is ordered by path.  The
  result is the ordered queryset with the attributes that the loop has set on its objects;
  \<open>ret\<close> holds the positions of the root nodes.  \<open>None\<close> stands for a loop that does not end.
\<close>

definition build_tree_structure ::
  "nat \<Rightarrow> db \<Rightarrow> node list option \<Rightarrow> (error + node list \<times> tstate) option" where
  "build_tree_structure site_id rows qs0 =
     (let qs = sort_key path (case qs0 of None \<Rightarrow> live site_id rows | Some q \<Rightarrow> q) in
      case tree_loop rows qs [0..<length qs]
             \<lparr>parent_attr = Map.empty, children_list = Map.empty, ret = []\<rparr> PyNone of
        None \<Rightarrow> None
      | Some (Inl e) \<Rightarrow> Some (Inl e)
      | Some (Inr st) \<Rightarrow> Some (Inr (qs, st)))"

text \<open>The paths of the roots and, for every object, its path with the paths of its children.\<close>

definition roots_of :: "node list \<times> tstate \<Rightarrow> string list" where
  "roots_of f = map (\<lambda>i. path (fst f ! i)) (ret (snd f))"

definition children_of :: "node list \<times> tstate \<Rightarrow> (string \<times> string list) list" where
  "children_of f =
     map (\<lambda>i. (path (fst f ! i),
                case children_list (snd f) i of None \<Rightarrow> [] | Some cl \<Rightarrow> map (\<lambda>j. path (fst f ! j)) cl))
       [0..<length (fst f)]"

section \<open>Notions of the specification\<close>

text \<open>
  \<open>descends rows k q\<close>: the stored row with key \<open>q\<close> is the row with key \<open>k\<close> or one
  of its descendants, that is, following the stored parent links from \<open>q\<close> arrives at \<open>k\<close>.
\<close>

inductive descends :: "db \<Rightarrow> nat \<Rightarrow> nat \<Rightarrow> bool" for rows :: db and k :: nat where
  descends_self: "get_pk rows k = Some r \<Longrightarrow> descends rows k k"
| descends_child:
    "get_pk rows q = Some r \<Longrightarrow> parent r = Some q' \<Longrightarrow> descends rows k q' \<Longrightarrow> descends rows k q"

text \<open>
  \<open>ancestry rows p ns\<close>: following the parent links from \<open>p\<close> ends at a root, and \<open>ns\<close> are
  the rows passed on the way, the oldest ancestor first.
\<close>

inductive ancestry :: "db \<Rightarrow> node \<Rightarrow> node list \<Rightarrow> bool" for rows :: db where
  ancestry_root: "parent p = None \<Longrightarrow> ancestry rows p []"
| ancestry_step:
    "parent p = Some q \<Longrightarrow> get_pk rows q = Some p' \<Longrightarrow> ancestry rows p' ns
       \<Longrightarrow> ancestry rows p (ns @ [p'])"

text \<open>A slug contains the delimiter; a slug ends with the character of the delimiter.\<close>

fun has_delim :: "string \<Rightarrow> bool" where
  "has_delim (a # b # cs) = ((a = CHR '':'' \<and> b = CHR '':'') \<or> has_delim (b # cs))"
| "has_delim cs = False"

definition ends_colon :: "string \<Rightarrow> bool" where
  "ends_colon s = (s \<noteq> [] \<and> last s = CHR '':'')"

text \<open>A slug that neither contains the delimiter nor ends with the character of it.\<close>

definition plain :: "string \<Rightarrow> bool" where
  "plain s = (\<not> has_delim s \<and> \<not> ends_colon s)"

text \<open>Invariants I1 and I2 for one row: the path of a root is its slug, the path of any
  other row is the path of its parent row, the delimiter and its slug.\<close>

definition path_inv :: "db \<Rightarrow> node \<Rightarrow> bool" where
  "path_inv rows r =
     (case parent r of
        None \<Rightarrow> path r = slug r
      | Some q \<Rightarrow>
          (case get_pk rows q of
             None \<Rightarrow> False
           | Some p \<Rightarrow> path r = path p @ DELIMETER @ slug r))"

text \<open>The primary key is set and identifies the row.\<close>

definition keyed :: "db \<Rightarrow> bool" where
  "keyed rows = (distinct (map pk rows) \<and> None \<notin> set (map pk rows))"

subsection \<open>Example tables\<close>

definition cat :: "nat \<Rightarrow> string \<Rightarrow> nat option \<Rightarrow> string \<Rightarrow> node" where
  "cat k s p pth =
     \<lparr>pk = Some k, name = s, slug = s, sites = [1], parent = p, path = pth, order = 0\<rparr>"

definition abc :: db where
  "abc = [cat 1 ''a'' None ''a'', cat 2 ''b'' (Some 1) ''a::b'', cat 3 ''c'' (Some 2) ''a::b::c'']"

text \<open>A root whose slug ends with a colon, and a child of it.\<close>

definition colon_root :: node where
  "colon_root = cat 1 ''a:'' None ''a:''"

definition colon_child :: node where
  "colon_child = cat 2 ''b'' (Some 1) ''a:::b''"

text \<open>The store in which only the path \<open>shoes::red\<close> exists.\<close>

definition shoes :: db where
  "shoes = [cat 1 ''red'' None ''shoes::red'']"

text \<open>
  A consistent forest in which a root slug continues another root slug with a digit: the
  roots \<open>a\<close> and \<open>a1\<close>, and the child \<open>b\<close> of \<open>a\<close>.
\<close>

definition digits :: db where
  "digits = [cat 1 ''a'' None ''a'', cat 2 ''a1'' None ''a1'', cat 3 ''b'' (Some 1) ''a::b'']"

text \<open>The four nodes with the paths \<open>a\<close>, \<open>a::b\<close>, \<open>a::c\<close> and \<open>a::b::d\<close>.\<close>

definition four :: "node list" where
  "four = [cat 1 ''a'' None ''a'', cat 2 ''b'' (Some 1) ''a::b'', cat 3 ''c'' (Some 1) ''a::c'',
           cat 4 ''d'' (Some 2) ''a::b::d'']"

text \<open>What a call of \<open>build_tree_structure\<close> gives, with the nodes named by their paths.\<close>

definition shape :: "(error + node list \<times> tstate) option
    \<Rightarrow> (error + string list \<times> (string \<times> string list) list) option" where
  "shape res = map_option (map_sum id (\<lambda>f. (roots_of f, children_of f))) res"

text \<open>A table whose second row belongs to site 2 only, and a root that belongs to site 2 only.\<close>

definition sited :: db where
  "sited = [cat 1 ''a'' None ''a'', (cat 2 ''b'' (Some 1) ''a::b'')\<lparr>sites := [2]\<rparr>,
            cat 3 ''c'' (Some 2) ''a::b::c'']"

definition offsite :: node where
  "offsite = (cat 1 ''a'' None ''a'')\<lparr>sites := [2]\<rparr>"

text \<open>The table of the root whose slug ends with a colon and of its child.\<close>

definition colons :: db where
  "colons = [colon_root, colon_child]"

subsection \<open>Notions for the cascade\<close>

text \<open>A row without its path: the columns that the cascade leaves as they are.\<close>

definition skel :: "node \<Rightarrow> node" where
  "skel r = r\<lparr>path := []\<rparr>"

text \<open>The path of a row is the one that \<open>save\<close> computes for it in the table.\<close>

definition computed :: "db \<Rightarrow> node \<Rightarrow> bool" where
  "computed rows r = (compute_path rows r = Inr (path r))"

text \<open>\<open>below rows k d\<close>: \<open>d\<close> is a proper descendant of the stored row with key \<open>k\<close>.\<close>

definition below :: "db \<Rightarrow> nat \<Rightarrow> node \<Rightarrow> bool" where
  "below rows k d = (case parent d of None \<Rightarrow> False | Some q \<Rightarrow> descends rows k q)"

text \<open>
  Two states of the table during a cascade, seen from a table \<open>rows0\<close> with the same rows
  up to paths: every row has kept all its columns but the path, and either is unchanged or
  has the path computed for it.  \<open>cascaded\<close> adds that the rows with a key of \<open>K\<close> and the
  rows below them have their computed paths.
\<close>

definition settled :: "db \<Rightarrow> db \<Rightarrow> db \<Rightarrow> bool" where
  "settled rows0 rows rows' =
     list_all2 (\<lambda>r r'. skel r' = skel r \<and> (r' = r \<or> computed rows0 r')) rows rows'"

definition cascaded :: "db \<Rightarrow> db \<Rightarrow> db \<Rightarrow> nat set \<Rightarrow> bool" where
  "cascaded rows0 rows rows' K =
     (settled rows0 rows rows' \<and>
      (\<forall>d \<in> set rows'. \<forall>k \<in> K. pk d = Some k \<or> below rows0 k d \<longrightarrow> computed rows0 d))"

text \<open>The table \<open>abc\<close> after its root has been renamed to \<open>x\<close>; a child whose slug starts with a colon.\<close>

definition renamed :: db where
  "renamed = [cat 1 ''x'' None ''x'', cat 2 ''b'' (Some 1) ''x::b'', cat 3 ''c'' (Some 2) ''x::b::c'']"

definition colon_kid :: node where
  "colon_kid = cat 2 '':b'' (Some 1) ''a::::b''"

section \<open>Circular parents are refused before any write\<close>

declare walk.simps [simp del]

lemma get_pk_SomeD: "get_pk rows k = Some r \<Longrightarrow> r \<in> set rows \<and> pk r = Some k"
  by (auto simp: get_pk_def find_Some_iff)

lemma walk_descends:
  "descends rows k q \<Longrightarrow> parent p = Some q \<Longrightarrow> Some k \<in> set seen
     \<Longrightarrow> walk rows seen p pth = Inl AssertionError"
proof (induction arbitrary: p seen pth rule: descends.induct)
  case (descends_self r)
  then show ?case
    by (subst walk.simps) (auto dest: get_pk_SomeD)
next
  case (descends_child q r q')
  show ?case
  proof (cases "pk r \<in> set seen")
    case True
    with descends_child.hyps(1) descends_child.prems(1) show ?thesis
      by (subst walk.simps) simp
  next
    case False
    have "walk rows (pk r # seen) r (slug r @ DELIMETER @ pth) = Inl AssertionError"
      by (rule descends_child.IH) (use descends_child in auto)
    with False descends_child.hyps(1) descends_child.prems(1) show ?thesis
      by (subst walk.simps) simp
  qed
qed

text \<open>
  C1.  A stored node with key \<open>k\<close> is saved with its parent set to \<open>q\<close>, where \<open>q\<close> is \<open>k\<close>
  itself or the key of one of its descendants.  Then \<open>save\<close> raises the assertion error of
  the circular parent check and the table it leaves is the table it found: nothing was
  written.
\<close>

theorem save_circular_parent_refused:
  assumes "pk self = Some k" and "parent self = Some q" and "descends rows k q"
  shows "save fuel rows self = (rows, Inl AssertionError)"
proof -
  have "compute_path rows self = Inl AssertionError"
    unfolding compute_path_def
    by (rule walk_descends [OF assms(3) assms(2)]) (simp add: assms(1))
  then show ?thesis by simp
qed

theorem save_circular_parent_refused_witness:
  "descends abc 1 3 \<and>
   save 7 abc ((cat 1 ''a'' None ''a'')\<lparr>parent := Some 3\<rparr>) = (abc, Inl AssertionError) \<and>
   save 7 abc ((cat 1 ''a'' None ''a'')\<lparr>parent := Some 1\<rparr>) = (abc, Inl AssertionError)"
proof -
  have d1: "descends abc 1 1"
    by (rule descends_self [of _ _ "cat 1 ''a'' None ''a''"]) (simp add: abc_def get_pk_def cat_def)
  have d2: "descends abc 1 2"
    by (rule descends_child [OF _ _ d1, of _ "cat 2 ''b'' (Some 1) ''a::b''"])
      (simp_all add: abc_def get_pk_def cat_def)
  have d3: "descends abc 1 3"
    by (rule descends_child [OF _ _ d2, of _ "cat 3 ''c'' (Some 2) ''a::b::c''"])
      (simp_all add: abc_def get_pk_def cat_def)
  show ?thesis
    using d3
      save_circular_parent_refused [OF _ _ d3, of "(cat 1 ''a'' None ''a'')\<lparr>parent := Some 3\<rparr>" 7]
      save_circular_parent_refused [OF _ _ d1, of "(cat 1 ''a'' None ''a'')\<lparr>parent := Some 1\<rparr>" 7]
    by (simp add: cat_def)
qed

section \<open>The path computed by \<open>save\<close>\<close>

lemma join_snoc: "join sep (xs @ [s]) = concat (map (\<lambda>x. x @ sep) xs) @ s"
  by (induction sep xs rule: join.induct) auto

lemma walk_ancestry:
  "ancestry rows p ns \<Longrightarrow> distinct (map pk ns) \<Longrightarrow> set (map pk ns) \<inter> set seen = {}
     \<Longrightarrow> walk rows seen p pth = Inr (concat (map (\<lambda>n. slug n @ DELIMETER) ns) @ pth)"
proof (induction arbitrary: seen pth rule: ancestry.induct)
  case (ancestry_root p)
  then show ?case by (subst walk.simps) simp
next
  case (ancestry_step p q p' ns)
  have fresh: "pk p' \<notin> set seen" and new: "pk p' \<notin> set (map pk ns)"
    using ancestry_step.prems by auto
  have "walk rows (pk p' # seen) p' (slug p' @ DELIMETER @ pth)
        = Inr (concat (map (\<lambda>n. slug n @ DELIMETER) ns) @ slug p' @ DELIMETER @ pth)"
    by (rule ancestry_step.IH) (use ancestry_step.prems new in auto)
  with fresh ancestry_step.hyps(1,2) show ?case
    by (subst walk.simps) simp
qed

lemma compute_path_ancestry:
  assumes "ancestry rows self ns" and "distinct (map pk (self # ns))"
  shows "compute_path rows self = Inr (join DELIMETER (map slug (ns @ [self])))"
proof -
  have "walk rows [pk self] self (slug self)
        = Inr (concat (map (\<lambda>n. slug n @ DELIMETER) ns) @ slug self)"
    by (rule walk_ancestry [OF assms(1)]) (use assms(2) in auto)
  then show ?thesis
    by (simp add: compute_path_def join_snoc [of _ "map slug ns"] comp_def)
qed

lemma has_delim_append_left: "has_delim u \<Longrightarrow> has_delim (u @ v)"
  by (induction u rule: has_delim.induct) auto

lemma has_delim_Cons: "has_delim v \<Longrightarrow> has_delim (c # v)"
  by (cases v) auto

lemma has_delim_append_right: "has_delim v \<Longrightarrow> has_delim (u @ v)"
  by (induction u) (auto simp: has_delim_Cons simp del: has_delim.simps)

lemma has_delim_mid: "has_delim (u @ CHR '':'' # CHR '':'' # v)"
  by (rule has_delim_append_right) simp

lemma split_delim_plain: "plain (rev acc @ s) \<Longrightarrow> split_delim acc s = [rev acc @ s]"
proof (induction acc s rule: split_delim.induct)
  case (3 acc a b cs)
  have "\<not> (a = CHR '':'' \<and> b = CHR '':'')"
    using "3.prems" has_delim_mid [of "rev acc" cs] by (auto simp: plain_def)
  with 3 show ?case by simp
qed auto

lemma split_delim_piece:
  "plain (rev acc @ s) \<Longrightarrow>
     split_delim acc (s @ DELIMETER @ rest) = (rev acc @ s) # split_delim [] rest"
proof (induction s arbitrary: acc)
  case Nil
  then show ?case by (simp add: DELIMETER_def)
next
  case (Cons c s)
  have step: "split_delim (c # acc) (s @ DELIMETER @ rest) = (rev (c # acc) @ s) # split_delim [] rest"
    by (rule Cons.IH) (use Cons.prems in simp)
  show ?case
  proof (cases s)
    case Nil
    have "c \<noteq> CHR '':''"
      using Cons.prems Nil by (auto simp: plain_def ends_colon_def)
    with step Nil show ?thesis by (simp add: DELIMETER_def)
  next
    case (Cons d s')
    have "\<not> (c = CHR '':'' \<and> d = CHR '':'')"
      using Cons.prems has_delim_mid [of "rev acc" s'] Cons by (auto simp: plain_def)
    with step Cons show ?thesis by simp
  qed
qed

lemma split_delim_join:
  "xs \<noteq> [] \<Longrightarrow> \<forall>s \<in> set xs. plain s \<Longrightarrow> split_delim [] (join DELIMETER xs) = xs"
proof (induction DELIMETER xs rule: join.induct)
  case 1
  then show ?case by simp
next
  case (2 x)
  then show ?case using split_delim_plain [of "[]" x] by simp
next
  case (3 x y ys)
  then show ?case using split_delim_piece [of "[]" x "join DELIMETER (y # ys)"] by simp
qed

lemma count_delim_split: "Suc (count_delim s) = length (split_delim acc s)"
  by (induction acc s rule: split_delim.induct) auto


lemma save_returns_computed_path:
  assumes "save fuel rows self = (rows', Inr self')" and "compute_path rows self = Inr p"
  shows "path self' = p"
  using assms
  by (auto simp: super_save_def Let_def split: sum.splits prod.splits if_splits option.splits)

lemma ancestry_rootD: "ancestry rows p ns \<Longrightarrow> parent p = None \<Longrightarrow> ns = []"
  by (auto elim: ancestry.cases)

lemma ancestry_abc_3:
  "ancestry abc (cat 3 ''c'' (Some 2) ''a::b::c'') [cat 1 ''a'' None ''a'', cat 2 ''b'' (Some 1) ''a::b'']"
proof -
  have g1: "get_pk abc 1 = Some (cat 1 ''a'' None ''a'')"
    and g2: "get_pk abc 2 = Some (cat 2 ''b'' (Some 1) ''a::b'')"
    by (simp_all add: cat_def abc_def get_pk_def)
  have a1: "ancestry abc (cat 1 ''a'' None ''a'') []"
    by (rule ancestry_root) (simp add: cat_def)
  have a2: "ancestry abc (cat 2 ''b'' (Some 1) ''a::b'') [cat 1 ''a'' None ''a'']"
    using ancestry_step [OF _ g1 a1, of "cat 2 ''b'' (Some 1) ''a::b''"] by (simp add: cat_def)
  show ?thesis
    using ancestry_step [OF _ g2 a2, of "cat 3 ''c'' (Some 2) ''a::b::c''"] by (simp add: cat_def)
qed

text \<open>
  C2, as the code has it.  When the parent chain of a node ends at a root and no key
  occurs twice among the node and its ancestors \<open>ns\<close> (oldest first), the path that \<open>save\<close>
  computes, and leaves in \<open>self\<close>, is the slugs of the ancestors and of the node joined by
  the delimiter, root first; for a node without parent it is the slug.  Splitting this
  path at the delimiter gives back the slugs when no slug contains the delimiter and,
  beyond what the claim asks, no slug ends with a colon.
\<close>

theorem save_path_joins_chain_slugs:
  assumes "ancestry rows self ns" and "distinct (map pk (self # ns))"
  shows "compute_path rows self = Inr (join DELIMETER (map slug (ns @ [self]))) \<and>
         (parent self = None \<longrightarrow> compute_path rows self = Inr (slug self)) \<and>
         (\<forall>rows' self'. save fuel rows self = (rows', Inr self')
            \<longrightarrow> path self' = join DELIMETER (map slug (ns @ [self]))) \<and>
         ((\<forall>n \<in> set (ns @ [self]). plain (slug n))
            \<longrightarrow> split_delim [] (join DELIMETER (map slug (ns @ [self]))) = map slug (ns @ [self]))"
proof -
  have p: "compute_path rows self = Inr (join DELIMETER (map slug (ns @ [self])))"
    by (rule compute_path_ancestry [OF assms])
  have root: "parent self = None \<longrightarrow> compute_path rows self = Inr (slug self)"
    using p ancestry_rootD [OF assms(1)] by auto
  have saved: "\<forall>rows' self'. save fuel rows self = (rows', Inr self')
            \<longrightarrow> path self' = join DELIMETER (map slug (ns @ [self]))"
    using save_returns_computed_path [OF _ p] by blast
  have split: "(\<forall>n \<in> set (ns @ [self]). plain (slug n))
            \<longrightarrow> split_delim [] (join DELIMETER (map slug (ns @ [self]))) = map slug (ns @ [self])"
    using split_delim_join [of "map slug (ns @ [self])"] by auto
  from p root saved split show ?thesis by blast
qed

theorem save_path_joins_chain_slugs_witness:
  "ancestry abc (cat 3 ''c'' (Some 2) ''a::b::c'') [cat 1 ''a'' None ''a'', cat 2 ''b'' (Some 1) ''a::b''] \<and>
   compute_path abc (cat 3 ''c'' (Some 2) ''a::b::c'') = Inr ''a::b::c'' \<and>
   save 7 abc (cat 3 ''c'' (Some 2) ''a::b::c'') = (abc, Inr (cat 3 ''c'' (Some 2) ''a::b::c'')) \<and>
   path (cat 3 ''c'' (Some 2) ''a::b::c'') = ''a::b::c'' \<and>
   split_delim [] ''a::b::c'' = [''a'', ''b'', ''c''] \<and>
   ancestry abc (cat 1 ''a'' None ''a'') [] \<and>
   compute_path abc (cat 1 ''a'' None ''a'') = Inr ''a''"
proof -
  have s: "save 7 abc (cat 3 ''c'' (Some 2) ''a::b::c'') = (abc, Inr (cat 3 ''c'' (Some 2) ''a::b::c''))"
    by code_simp
  have r: "ancestry abc (cat 1 ''a'' None ''a'') []"
    by (rule ancestry_root) (simp add: cat_def)
  show ?thesis
    using ancestry_abc_3 s r
      save_path_joins_chain_slugs [OF ancestry_abc_3, of 7]
      save_path_joins_chain_slugs [OF r, of 7]
    by (simp add: cat_def plain_def ends_colon_def DELIMETER_def)
qed


text \<open>
  C2 as it is stated fails: slugs without the delimiter do not suffice for the
  decomposition.  The root slug \<open>a:\<close> and the child slug \<open>b\<close> give the path \<open>a:::b\<close>, whose
  first delimiter from the left starts inside the root slug, so the split yields \<open>a\<close> and
  \<open>:b\<close>.
\<close>

theorem path_split_counterexample:
  "ancestry [colon_root] colon_child [colon_root] \<and>
   distinct (map pk [colon_child, colon_root]) \<and>
   \<not> has_delim (slug colon_root) \<and> \<not> has_delim (slug colon_child) \<and>
   compute_path [colon_root] colon_child = Inr ''a:::b'' \<and>
   split_delim [] ''a:::b'' = [''a'', '':b''] \<and>
   map slug [colon_root, colon_child] = [''a:'', ''b'']"
proof -
  have r: "ancestry [colon_root] colon_root []"
    by (rule ancestry_root) (simp add: cat_def colon_root_def)
  have a: "ancestry [colon_root] colon_child ([] @ [colon_root])"
    by (rule ancestry_step [OF _ _ r, where q = 1])
      (simp_all add: cat_def colon_root_def colon_child_def get_pk_def)
  have c: "compute_path [colon_root] colon_child = Inr ''a:::b''"
    by code_simp
  show ?thesis
    using a c by (simp add: colon_root_def colon_child_def cat_def)
qed

section \<open>Resolving a locator\<close>

declare select_loop.simps [simp del]

lemma get_path_found:
  assumes "distinct (map path (live site_id rows))" and "c \<in> set (live site_id rows)"
  shows "get_path site_id rows (path c) = Inr c"
proof -
  have "filter (\<lambda>r. path r = path c) xs = [c]" if "distinct (map path xs)" and "c \<in> set xs" for xs
    using that
  proof (induction xs)
    case Nil
    then show ?case by simp
  next
    case (Cons x xs)
    show ?case
    proof (cases "x = c")
      case True
      with Cons.prems have "path c \<notin> path ` set xs"
        by simp
      then have "filter (\<lambda>r. path r = path c) xs = []"
        unfolding filter_empty_conv by (metis imageI)
      with True show ?thesis by simp
    next
      case False
      with Cons show ?thesis by auto
    qed
  qed
  from this [OF assms] show ?thesis by (simp add: get_path_def)
qed

lemma get_path_missing:
  assumes "\<forall>r \<in> set (live site_id rows). path r \<noteq> pth"
  shows "get_path site_id rows pth = Inl DoesNotExist"
proof -
  have "filter (\<lambda>r. path r = pth) (live site_id rows) = []"
    using assms by (auto simp: filter_empty_conv)
  then show ?thesis by (simp add: get_path_def)
qed

lemma select_loop_longest:
  assumes "distinct (map path (live site_id rows))" and "c \<in> set (live site_id rows)"
    and "1 \<le> k" and "k \<le> length items" and "path c = join DELIMETER (take k items)"
    and "\<forall>j. k < j \<and> j \<le> length items
           \<longrightarrow> (\<forall>r \<in> set (live site_id rows). path r \<noteq> join DELIMETER (take j items))"
    and "limit < 0"
  shows "snd (select_loop site_id rows items extras limit looked) = Inr (Some c, drop k items @ extras)"
  using assms(4-)
proof (induction "length items - k" arbitrary: items extras limit looked)
  case 0
  then have full: "take k items = items" and ne: "items \<noteq> []"
    using assms(3) by auto
  have "get_path site_id rows (join DELIMETER items) = Inr c"
    using get_path_found [OF assms(1,2)] "0.prems"(2) full by simp
  with ne "0.prems"(4) full "0.prems"(1) show ?case
    by (subst select_loop.simps) simp
next
  case (Suc n)
  then have longer: "k < length items" and ne: "items \<noteq> []"
    by auto
  have miss: "get_path site_id rows (join DELIMETER items) = Inl DoesNotExist"
    using Suc.prems(3) longer by (intro get_path_missing) (metis order_refl take_all)
  have k': "k \<le> length (butlast items)"
    using longer by simp
  have tk: "take j (butlast items) = take j items" if "j \<le> length (butlast items)" for j
    using that by (simp add: butlast_conv_take min_absorb1)
  have "snd (select_loop site_id rows (butlast items) (last items # extras) (limit - 1)
               (looked @ [join DELIMETER items]))
        = Inr (Some c, drop k (butlast items) @ last items # extras)"
  proof (rule Suc.hyps(1))
    show "n = length (butlast items) - k" using Suc.hyps(2) by simp
    show "k \<le> length (butlast items)" by (rule k')
    show "path c = join DELIMETER (take k (butlast items))"
      using Suc.prems(2) tk [OF k'] by simp
    show "\<forall>j. k < j \<and> j \<le> length (butlast items)
           \<longrightarrow> (\<forall>r \<in> set (live site_id rows). path r \<noteq> join DELIMETER (take j (butlast items)))"
    proof (intro allI impI)
      fix j
      assume j: "k < j \<and> j \<le> length (butlast items)"
      then have "k < j \<and> j \<le> length items" by auto
      with Suc.prems(3) have "\<forall>r \<in> set (live site_id rows). path r \<noteq> join DELIMETER (take j items)"
        by blast
      with tk [of j] j show "\<forall>r \<in> set (live site_id rows). path r \<noteq> join DELIMETER (take j (butlast items))"
        by simp
    qed
    show "limit - 1 < 0" using Suc.prems(4) by simp
  qed
  moreover have "drop k items = drop k (butlast items) @ [last items]"
    using k' ne by (metis append_butlast_last_id drop_append diff_is_0_eq drop_0)
  ultimately show ?case
    using ne miss Suc.prems(4) by (subst select_loop.simps) simp
qed

lemma split_slash_nonempty: "split_slash acc url \<noteq> []"
  by (induction acc url rule: split_slash.induct) auto

text \<open>
  C5.  Let \<open>items\<close> be the segments of the locator and let the first \<open>k\<close> of them, joined by
  the delimiter, be the path of the live row \<open>c\<close>, while no longer prefix of \<open>items\<close> is the
  path of a live row.  With limit \<open>-1\<close> the function returns \<open>c\<close> and the segments after the
  first \<open>k\<close> in their order.  The rows looked up are the live ones, whose paths are unique.
  For the locator \<open>shoes/red/size-10\<close> and the store with the one path \<open>shoes::red\<close> the
  result is that row with the leftover \<open>size-10\<close>.
\<close>

theorem select_from_url_longest_prefix:
  assumes "split_slash [] url = items"
    and "distinct (map path (live site_id rows))" and "c \<in> set (live site_id rows)"
    and "1 \<le> k" and "k \<le> length items" and "path c = join DELIMETER (take k items)"
    and "\<forall>j. k < j \<and> j \<le> length items
           \<longrightarrow> (\<forall>r \<in> set (live site_id rows). path r \<noteq> join DELIMETER (take j items))"
  shows "snd (select_from_url site_id rows url (- 1)) = Inr (Some c, drop k items)"
  using select_loop_longest [OF assms(2-7), of "- 1" "[]" "[]"] assms(1)
  by (simp add: select_from_url_def)

theorem select_from_url_longest_prefix_witness:
  "split_slash [] ''shoes/red/size-10'' = [''shoes'', ''red'', ''size-10''] \<and>
   live 1 shoes = [cat 1 ''red'' None ''shoes::red''] \<and>
   join DELIMETER (take 2 [''shoes'', ''red'', ''size-10'']) = ''shoes::red'' \<and>
   join DELIMETER (take 3 [''shoes'', ''red'', ''size-10'']) = ''shoes::red::size-10'' \<and>
   snd (select_from_url 1 shoes ''shoes/red/size-10'' (- 1))
     = Inr (Some (cat 1 ''red'' None ''shoes::red''), [''size-10''])"
proof -
  have sp: "split_slash [] ''shoes/red/size-10'' = [''shoes'', ''red'', ''size-10'']"
    by simp
  have lv: "live 1 shoes = [cat 1 ''red'' None ''shoes::red'']"
    by (simp add: live_def shoes_def cat_def)
  have j2: "join DELIMETER (take 2 [''shoes'', ''red'', ''size-10'']) = ''shoes::red''"
    and j3: "join DELIMETER (take 3 [''shoes'', ''red'', ''size-10'']) = ''shoes::red::size-10''"
    by (simp_all add: DELIMETER_def)
  have longer: "\<forall>j. 2 < j \<and> j \<le> length [''shoes'', ''red'', ''size-10'']
           \<longrightarrow> (\<forall>r \<in> set (live 1 shoes). path r \<noteq> join DELIMETER (take j [''shoes'', ''red'', ''size-10'']))"
  proof (intro allI impI)
    fix j :: nat
    assume "2 < j \<and> j \<le> length [''shoes'', ''red'', ''size-10'']"
    then have "j = 3" by simp
    then show "\<forall>r \<in> set (live 1 shoes). path r \<noteq> join DELIMETER (take j [''shoes'', ''red'', ''size-10''])"
      using lv j3 by (simp add: cat_def)
  qed
  have d: "distinct (map path (live 1 shoes))"
    and m: "cat 1 ''red'' None ''shoes::red'' \<in> set (live 1 shoes)"
    and p: "path (cat 1 ''red'' None ''shoes::red'') = join DELIMETER (take 2 [''shoes'', ''red'', ''size-10''])"
    unfolding lv j2 by (simp_all add: cat_def)
  have "snd (select_from_url 1 shoes ''shoes/red/size-10'' (- 1))
     = Inr (Some (cat 1 ''red'' None ''shoes::red''), drop 2 [''shoes'', ''red'', ''size-10''])"
    by (rule select_from_url_longest_prefix [OF sp d m _ _ p longer]) simp_all
  with sp lv j2 j3 show ?thesis by simp
qed



text \<open>
  C6, as the code has it.  With limit \<open>0\<close> and no live row under the path of the whole
  locator, the function looks up this one path and returns no match; the leftovers are
  the one segment that the loop has taken off, the last one.
\<close>

theorem select_from_url_limit_zero_miss:
  assumes "split_slash [] url = items"
    and "\<forall>r \<in> set (live site_id rows). path r \<noteq> join DELIMETER items"
  shows "select_from_url site_id rows url 0 = ([join DELIMETER items], Inr (None, [last items]))"
proof -
  have ne: "items \<noteq> []"
    using assms(1) split_slash_nonempty [of "[]" url] by simp
  have miss: "get_path site_id rows (join DELIMETER items) = Inl DoesNotExist"
    by (rule get_path_missing [OF assms(2)])
  have "select_loop site_id rows items [] 1 []
        = select_loop site_id rows (butlast items) [last items] 0 [join DELIMETER items]"
    using ne miss by (subst select_loop.simps) simp
  also have "\<dots> = ([join DELIMETER items], Inr (None, [last items]))"
    by (subst select_loop.simps) simp
  finally show ?thesis
    using assms(1) by (simp add: select_from_url_def)
qed

theorem select_from_url_limit_zero_miss_witness:
  "split_slash [] ''shoes/red/size-10'' = [''shoes'', ''red'', ''size-10''] \<and>
   live 1 shoes = [cat 1 ''red'' None ''shoes::red''] \<and>
   select_from_url 1 shoes ''shoes/red/size-10'' 0
     = ([''shoes::red::size-10''], Inr (None, [''size-10'']))"
proof -
  have sp: "split_slash [] ''shoes/red/size-10'' = [''shoes'', ''red'', ''size-10'']"
    by simp
  have lv: "live 1 shoes = [cat 1 ''red'' None ''shoes::red'']"
    by (simp add: live_def shoes_def cat_def)
  have no: "\<forall>r \<in> set (live 1 shoes). path r \<noteq> join DELIMETER [''shoes'', ''red'', ''size-10'']"
    unfolding lv by (simp add: cat_def DELIMETER_def)
  show ?thesis
    using sp lv select_from_url_limit_zero_miss [OF sp no] by (simp add: DELIMETER_def)
qed


text \<open>
  C6 as it is stated fails: the leftovers returned for \<open>shoes/red/size-10\<close> are
  \<open>size-10\<close> alone, not the three segments.
\<close>

theorem select_from_url_limit_zero_counterexample:
  "live 1 shoes = [cat 1 ''red'' None ''shoes::red''] \<and>
   snd (select_from_url 1 shoes ''shoes/red/size-10'' 0) = Inr (None, [''size-10'']) \<and>
   snd (select_from_url 1 shoes ''shoes/red/size-10'' 0)
     \<noteq> Inr (None, [''shoes'', ''red'', ''size-10''])"
  by (simp add: select_from_url_def select_loop.simps get_path_def live_def shoes_def cat_def
      DELIMETER_def)

section \<open>Building the forest\<close>

declare wind_back.simps [code]

text \<open>
  C4.  The table \<open>digits\<close> is a consistent forest: every row satisfies I1 and I2 and the
  parent of \<open>a::b\<close> is stored.  In the order of the paths \<open>a1\<close> stands between \<open>a\<close> and
  \<open>a::b\<close>, because a digit is smaller than a colon, so the loop finds \<open>a1\<close> as the previous
  node of smaller depth and appends \<open>a::b\<close> to the children of \<open>a1\<close>; the children of \<open>a\<close>,
  whose path is the prefix of \<open>a::b\<close>, stay empty.
\<close>

theorem build_tree_structure_digit_sibling:
  "path_inv digits (cat 1 ''a'' None ''a'') \<and>
   path_inv digits (cat 2 ''a1'' None ''a1'') \<and>
   path_inv digits (cat 3 ''b'' (Some 1) ''a::b'') \<and>
   live 1 digits = digits \<and>
   sort_key path digits = digits \<and>
   shape (build_tree_structure 1 digits None)
     = Some (Inr ([''a'', ''a1''], [(''a'', []), (''a1'', [''a::b'']), (''a::b'', [])]))"
  by code_simp

text \<open>The four nodes of the example of C4 come out as the claim says.\<close>

lemma build_tree_structure_four_nodes:
  "shape (build_tree_structure 1 four (Some four))
   = Some (Inr ([''a''], [(''a'', [''a::b'', ''a::c'']), (''a::b'', [''a::b::d'']),
        (''a::b::d'', []), (''a::c'', [])]))"
  by code_simp

lemma replicate_filter_inj:
  assumes "inj_on f (set xs)" and "k \<in> set xs"
  shows "filter (\<lambda>x. f k = f x) xs = replicate (count (mset xs) k) k"
proof -
  have "filter (\<lambda>x. f k = f x) xs = filter (\<lambda>x. k = x) xs"
    using assms by (intro filter_cong) (auto dest: inj_onD)
  also have "\<dots> = replicate (count (mset xs) k) k"
    by (induction xs) auto
  finally show ?thesis .
qed

lemma sort_key_permutation:
  assumes "mset xs = mset ys" and "inj_on f (set xs)"
  shows "sort_key f xs = sort_key f ys"
proof (rule properties_for_sort_key)
  show "mset (sort_key f ys) = mset xs" using assms(1) by simp
  show "sorted (map f (sort_key f ys))" by simp
next
  fix k
  assume "k \<in> set (sort_key f ys)"
  then have k: "k \<in> set xs" using assms(1) by (metis set_mset_mset set_sort)
  have s: "set (sort_key f ys) = set xs" using assms(1) by (metis set_mset_mset set_sort)
  have "filter (\<lambda>x. f k = f x) (sort_key f ys) = replicate (count (mset (sort_key f ys)) k) k"
    by (rule replicate_filter_inj) (use s k assms(2) in auto)
  also have "\<dots> = filter (\<lambda>x. f k = f x) xs"
    using replicate_filter_inj [OF assms(2) k] assms(1) by simp
  finally show "filter (\<lambda>x. f k = f x) (sort_key f ys) = filter (\<lambda>x. f k = f x) xs" .
qed

text \<open>
  C10.  \<open>build_tree_structure\<close> orders the nodes it is given by path before its loop, so
  two collections with the same nodes, supplied in any two orders, give the same forest.
  The path identifies the node, as the unique path column has it.
\<close>

theorem build_tree_structure_ignores_order:
  assumes "mset qs = mset qs'" and "inj_on path (set qs)"
  shows "build_tree_structure site_id rows (Some qs) = build_tree_structure site_id rows (Some qs')"
  using sort_key_permutation [OF assms] by (simp add: build_tree_structure_def)

theorem build_tree_structure_ignores_order_witness:
  "mset four = mset (rev four) \<and> inj_on path (set four) \<and> four \<noteq> rev four \<and>
   build_tree_structure 1 four (Some four) = build_tree_structure 1 four (Some (rev four)) \<and>
   shape (build_tree_structure 1 four (Some (rev four)))
     = Some (Inr ([''a''], [(''a'', [''a::b'', ''a::c'']), (''a::b'', [''a::b::d'']), (''a::b::d'', []), (''a::c'', [])]))"
proof -
  have m: "mset four = mset (rev four)" by simp
  have i: "inj_on path (set four)" by (simp add: four_def cat_def)
  have n: "four \<noteq> rev four" by (simp add: four_def cat_def)
  have s: "shape (build_tree_structure 1 four (Some (rev four)))
     = Some (Inr ([''a''], [(''a'', [''a::b'', ''a::c'']), (''a::b'', [''a::b::d'']), (''a::b::d'', []), (''a::c'', [])]))"
    by code_simp
  show ?thesis
    using m i n s build_tree_structure_ignores_order [OF m i, of 1 four] by simp
qed

section \<open>The queries and the visibility filter\<close>

lemma live_sites: "r \<in> set (live site_id rows) \<Longrightarrow> site_id \<in> set (sites r)"
  by (simp add: live_def)

lemma get_path_live: "get_path site_id rows pth = Inr c \<Longrightarrow> c \<in> set (live site_id rows)"
proof -
  assume a: "get_path site_id rows pth = Inr c"
  then have "filter (\<lambda>r. path r = pth) (live site_id rows) = [c]"
    by (auto simp: get_path_def split: list.splits)
  then have "c \<in> set (filter (\<lambda>r. path r = pth) (live site_id rows))"
    by simp
  then show ?thesis by simp
qed

lemma select_loop_live:
  "snd (select_loop site_id rows items extras limit looked) = Inr (Some c, extras')
     \<Longrightarrow> c \<in> set (live site_id rows)"
proof (induction site_id rows items extras limit looked rule: select_loop.induct)
  case (1 site_id rows items extras limit looked)
  show ?case
  proof (cases "items \<noteq> [] \<and> limit \<noteq> 0")
    case False
    with "1.prems" show ?thesis by (subst (asm) select_loop.simps) auto
  next
    case True
    show ?thesis
    proof (cases "get_path site_id rows (join DELIMETER items)")
      case (Inr category)
      with True "1.prems" have "category = c"
        by (subst (asm) select_loop.simps) simp
      with Inr show ?thesis by (simp add: get_path_live)
    next
      case (Inl e)
      show ?thesis
      proof (cases "e = DoesNotExist")
        case False
        with True Inl "1.prems" show ?thesis by (subst (asm) select_loop.simps) simp
      next
        case dne: True
        have "snd (select_loop site_id rows (butlast items) (last items # extras) (limit - 1)
                (looked @ [join DELIMETER items])) = Inr (Some c, extras')"
          using "1.prems" True Inl dne by (subst (asm) select_loop.simps) simp
        with "1.IH" [OF True Inl dne] show ?thesis by simp
      qed
    qed
  qed
qed

lemma split_delim_nonempty: "split_delim acc s \<noteq> []"
  by (induction acc s rule: split_delim.induct) auto

lemma join_Cons: "ys \<noteq> [] \<Longrightarrow> join sep (x # ys) = x @ sep @ join sep ys"
  by (cases ys) auto

lemma join_split_delim: "join DELIMETER (split_delim acc s) = rev acc @ s"
  by (induction acc s rule: split_delim.induct)
    (auto simp: DELIMETER_def join_Cons split_delim_nonempty)

lemma branch_paths_last:
  "ss \<noteq> [] \<Longrightarrow> join DELIMETER (path_so_far @ ss) \<in> set (branch_paths path_so_far ss)"
proof (induction ss arbitrary: path_so_far)
  case Nil
  then show ?case by simp
next
  case (Cons s ss)
  show ?case
  proof (cases "ss = []")
    case True
    then show ?thesis by simp
  next
    case False
    from Cons.IH [OF False, of "path_so_far @ [s]"] show ?thesis by simp
  qed
qed

lemma own_path_in_branch_paths: "pth \<in> set (branch_paths [] (split_delim [] pth))"
  using branch_paths_last [OF split_delim_nonempty, of "[]" "[]" pth]
  by (simp add: join_split_delim)

lemma self_in_branch: "n \<in> set rows \<Longrightarrow> n \<in> set (branch rows n)"
  by (simp add: branch_def own_path_in_branch_paths)

lemma subtree_member:
  "r \<in> set (subtree site_id rows n) \<longleftrightarrow>
     r \<in> set rows \<and> (pk n \<noteq> None \<and> pk r = pk n
       \<or> site_id \<in> set (sites r) \<and> prefix (path n @ DELIMETER) (path r))"
  by (auto simp: subtree_def all_children_def live_def split: if_splits)

lemma branch_paths_set:
  "set (branch_paths path_so_far ss)
     = {join DELIMETER (path_so_far @ take j ss) | j. 1 \<le> j \<and> j \<le> length ss}"
proof (induction ss arbitrary: path_so_far)
  case Nil
  then show ?case by simp
next
  case (Cons s ss)
  have "{join DELIMETER (path_so_far @ take j (s # ss)) | j. 1 \<le> j \<and> j \<le> length (s # ss)}
        = insert (join DELIMETER (path_so_far @ [s]))
            {join DELIMETER ((path_so_far @ [s]) @ take j ss) | j. 1 \<le> j \<and> j \<le> length ss}"
    (is "?L = insert ?x ?R")
  proof (intro set_eqI iffI)
    fix x
    assume "x \<in> ?L"
    then obtain j where j: "x = join DELIMETER (path_so_far @ take j (s # ss))" "1 \<le> j"
      "j \<le> length (s # ss)"
      by blast
    then obtain i where i: "j = Suc i" by (cases j) auto
    show "x \<in> insert ?x ?R"
    proof (cases i)
      case 0
      with j(1) i show ?thesis by simp
    next
      case (Suc i')
      with j i have "x = join DELIMETER ((path_so_far @ [s]) @ take i ss)" "1 \<le> i" "i \<le> length ss"
        by simp_all
      then show ?thesis by blast
    qed
  next
    fix x
    assume "x \<in> insert ?x ?R"
    then show "x \<in> ?L"
    proof
      assume "x = ?x"
      then have "x = join DELIMETER (path_so_far @ take 1 (s # ss))" by simp
      then show ?thesis by (intro CollectI exI [of _ 1]) simp
    next
      assume "x \<in> ?R"
      then obtain i where "x = join DELIMETER ((path_so_far @ [s]) @ take i ss)" "1 \<le> i"
        "i \<le> length ss"
        by blast
      then show ?thesis by (intro CollectI exI [of _ "Suc i"]) simp
    qed
  qed
  with Cons.IH [of "path_so_far @ [s]"] show ?case by simp
qed

lemma branch_member:
  "r \<in> set (branch rows n) \<longleftrightarrow>
     r \<in> set rows \<and>
     (\<exists>j. 1 \<le> j \<and> j \<le> length (split_delim [] (path n))
          \<and> path r = join DELIMETER (take j (split_delim [] (path n))))"
  using branch_paths_set [of "[]" "split_delim [] (path n)"]
  by (auto simp: branch_def)

text \<open>
  C7, as the code has it.  \<open>toplevel\<close>, \<open>leaf_nodes\<close>, \<open>inner_nodes\<close>, \<open>all_children\<close>,
  \<open>subcategories\<close> and \<open>select_from_url\<close> return only rows of the current site.  \<open>subtree\<close>
  returns the stored row of the node itself, whatever its sites are, and the rows of the
  current site whose path continues the path of the node.  \<open>branch\<close> returns every stored row
  whose path is the first pieces of the path of the node joined again, whatever the sites
  of the row are; \<open>travel_up\<close> returns the rows of \<open>branch\<close> without the node, and \<open>parents\<close>
  returns the rows of \<open>travel_up\<close>.  A stored node is in its own \<open>subtree\<close> and \<open>branch\<close>.
\<close>

theorem queries_and_visibility:
  "(\<forall>r \<in> set (toplevel site_id rows) \<union> set (leaf_nodes site_id rows)
        \<union> set (inner_nodes site_id rows) \<union> set (all_children site_id rows n)
        \<union> set (subcategories site_id rows n). site_id \<in> set (sites r)) \<and>
   (\<forall>c extras. snd (select_from_url site_id rows url limit) = Inr (Some c, extras)
        \<longrightarrow> site_id \<in> set (sites c)) \<and>
   (\<forall>r. r \<in> set (subtree site_id rows n) \<longleftrightarrow>
        r \<in> set rows \<and> (pk n \<noteq> None \<and> pk r = pk n
          \<or> site_id \<in> set (sites r) \<and> prefix (path n @ DELIMETER) (path r))) \<and>
   (\<forall>r. r \<in> set (branch rows n) \<longleftrightarrow>
        r \<in> set rows \<and>
        (\<exists>j. 1 \<le> j \<and> j \<le> length (split_delim [] (path n))
             \<and> path r = join DELIMETER (take j (split_delim [] (path n))))) \<and>
   (\<forall>r. r \<in> set (travel_up rows n) \<longleftrightarrow> r \<in> set (branch rows n) \<and> pk r \<noteq> pk n) \<and>
   set (parents rows n) = set (travel_up rows n) \<and>
   (n \<in> set rows \<longrightarrow> n \<in> set (branch rows n)) \<and>
   (n \<in> set rows \<and> pk n \<noteq> None \<longrightarrow> n \<in> set (subtree site_id rows n))"
proof -
  have a: "\<forall>r \<in> set (toplevel site_id rows) \<union> set (leaf_nodes site_id rows)
        \<union> set (inner_nodes site_id rows) \<union> set (all_children site_id rows n)
        \<union> set (subcategories site_id rows n). site_id \<in> set (sites r)"
    by (auto simp: toplevel_def leaf_nodes_def inner_nodes_def all_children_def
        subcategories_def dest: live_sites)
  have b: "\<forall>c extras. snd (select_from_url site_id rows url limit) = Inr (Some c, extras)
        \<longrightarrow> site_id \<in> set (sites c)"
    unfolding select_from_url_def by (blast dest: select_loop_live live_sites)
  have c: "\<forall>r. r \<in> set (subtree site_id rows n) \<longleftrightarrow>
        r \<in> set rows \<and> (pk n \<noteq> None \<and> pk r = pk n
          \<or> site_id \<in> set (sites r) \<and> prefix (path n @ DELIMETER) (path r))"
    using subtree_member by blast
  have d: "\<forall>r. r \<in> set (branch rows n) \<longleftrightarrow>
        r \<in> set rows \<and>
        (\<exists>j. 1 \<le> j \<and> j \<le> length (split_delim [] (path n))
             \<and> path r = join DELIMETER (take j (split_delim [] (path n))))"
    using branch_member by blast
  have e: "\<forall>r. r \<in> set (travel_up rows n) \<longleftrightarrow> r \<in> set (branch rows n) \<and> pk r \<noteq> pk n"
    by (auto simp: travel_up_def)
  have f: "set (parents rows n) = set (travel_up rows n)"
    by (simp add: parents_def)
  have g: "n \<in> set rows \<longrightarrow> n \<in> set (branch rows n)"
    using self_in_branch by blast
  have h: "n \<in> set rows \<and> pk n \<noteq> None \<longrightarrow> n \<in> set (subtree site_id rows n)"
    by (simp add: subtree_member)
  from a b c d e f g h show ?thesis by (intro conjI)
qed

theorem queries_and_visibility_witness:
  "toplevel 1 sited = [cat 1 ''a'' None ''a''] \<and>
   leaf_nodes 1 sited = [cat 3 ''c'' (Some 2) ''a::b::c''] \<and>
   inner_nodes 1 sited = [cat 1 ''a'' None ''a''] \<and>
   all_children 1 sited (cat 1 ''a'' None ''a'') = [cat 3 ''c'' (Some 2) ''a::b::c''] \<and>
   subcategories 1 sited (cat 2 ''b'' (Some 1) ''a::b'') = [cat 3 ''c'' (Some 2) ''a::b::c''] \<and>
   snd (select_from_url 1 sited ''a/b/c/d'' (- 1))
     = Inr (Some (cat 3 ''c'' (Some 2) ''a::b::c''), [''d'']) \<and>
   1 \<in> set (sites (cat 3 ''c'' (Some 2) ''a::b::c'')) \<and>
   subtree 1 sited ((cat 2 ''b'' (Some 1) ''a::b'')\<lparr>sites := [2]\<rparr>)
     = [(cat 2 ''b'' (Some 1) ''a::b'')\<lparr>sites := [2]\<rparr>, cat 3 ''c'' (Some 2) ''a::b::c''] \<and>
   (cat 2 ''b'' (Some 1) ''a::b'')\<lparr>sites := [2]\<rparr> \<in> set sited \<and>
   (cat 2 ''b'' (Some 1) ''a::b'')\<lparr>sites := [2]\<rparr>
     \<in> set (subtree 1 sited ((cat 2 ''b'' (Some 1) ''a::b'')\<lparr>sites := [2]\<rparr>)) \<and>
   (cat 2 ''b'' (Some 1) ''a::b'')\<lparr>sites := [2]\<rparr>
     \<in> set (branch sited ((cat 2 ''b'' (Some 1) ''a::b'')\<lparr>sites := [2]\<rparr>)) \<and>
   branch sited (cat 3 ''c'' (Some 2) ''a::b::c'')
     = [cat 3 ''c'' (Some 2) ''a::b::c'', (cat 2 ''b'' (Some 1) ''a::b'')\<lparr>sites := [2]\<rparr>,
        cat 1 ''a'' None ''a''] \<and>
   set (parents sited (cat 3 ''c'' (Some 2) ''a::b::c''))
     = set (travel_up sited (cat 3 ''c'' (Some 2) ''a::b::c''))"
proof -
  let ?b = "(cat 2 ''b'' (Some 1) ''a::b'')\<lparr>sites := [2]\<rparr>"
  let ?c = "cat 3 ''c'' (Some 2) ''a::b::c''"
  have e1: "toplevel 1 sited = [cat 1 ''a'' None ''a'']"
    and e2: "leaf_nodes 1 sited = [?c]"
    and e3: "inner_nodes 1 sited = [cat 1 ''a'' None ''a'']"
    and e4: "all_children 1 sited (cat 1 ''a'' None ''a'') = [?c]"
    and e5: "subcategories 1 sited (cat 2 ''b'' (Some 1) ''a::b'') = [?c]"
    and e6: "snd (select_from_url 1 sited ''a/b/c/d'' (- 1)) = Inr (Some ?c, [''d''])"
    and e7: "subtree 1 sited ?b = [?b, ?c]"
    and e8: "?b \<in> set sited"
    and e9: "branch sited ?c = [?c, ?b, cat 1 ''a'' None ''a'']"
    and pkb: "pk ?b \<noteq> None"
    by code_simp+
  note tb = queries_and_visibility [of 1 sited ?b "''a/b/c/d''" "- 1"]
  note tc = queries_and_visibility [of 1 sited ?c "''a/b/c/d''" "- 1"]
  from tc have live_c: "1 \<in> set (sites ?c)"
    using e6 by blast
  from tb have "?b \<in> set sited \<and> pk ?b \<noteq> None \<longrightarrow> ?b \<in> set (subtree 1 sited ?b)"
    by (elim conjE)
  with e8 pkb have in_sub: "?b \<in> set (subtree 1 sited ?b)"
    by blast
  from tb have "?b \<in> set sited \<longrightarrow> ?b \<in> set (branch sited ?b)"
    by (elim conjE)
  with e8 have in_br: "?b \<in> set (branch sited ?b)"
    by blast
  from tc have par: "set (parents sited ?c) = set (travel_up sited ?c)"
    by (elim conjE)
  from e1 e2 e3 e4 e5 e6 live_c e7 e8 in_sub in_br e9 par show ?thesis
    by (intro conjI)
qed

text \<open>
  C7 as it is stated fails.  A root that is not on site 1 is returned by its own \<open>subtree\<close>
  and \<open>branch\<close> called for site 1.  In the table \<open>sited\<close> the node \<open>c\<close> is on site 1 and its
  parent \<open>b\<close> is on site 2 only, and \<open>branch\<close>, \<open>travel_up\<close> and \<open>parents\<close> of \<open>c\<close> return \<open>b\<close>.
\<close>

theorem queries_visibility_counterexample:
  "1 \<notin> set (sites offsite) \<and> live 1 [offsite] = [] \<and>
   subtree 1 [offsite] offsite = [offsite] \<and> branch [offsite] offsite = [offsite] \<and>
   1 \<in> set (sites (cat 3 ''c'' (Some 2) ''a::b::c'')) \<and>
   1 \<notin> set (sites ((cat 2 ''b'' (Some 1) ''a::b'')\<lparr>sites := [2]\<rparr>)) \<and>
   branch sited (cat 3 ''c'' (Some 2) ''a::b::c'')
     = [cat 3 ''c'' (Some 2) ''a::b::c'', (cat 2 ''b'' (Some 1) ''a::b'')\<lparr>sites := [2]\<rparr>,
        cat 1 ''a'' None ''a''] \<and>
   travel_up sited (cat 3 ''c'' (Some 2) ''a::b::c'')
     = [(cat 2 ''b'' (Some 1) ''a::b'')\<lparr>sites := [2]\<rparr>, cat 1 ''a'' None ''a''] \<and>
   parents sited (cat 3 ''c'' (Some 2) ''a::b::c'')
     = [cat 1 ''a'' None ''a'', (cat 2 ''b'' (Some 1) ''a::b'')\<lparr>sites := [2]\<rparr>]"
  by code_simp

section \<open>The ancestors of a node\<close>

lemma join_snoc2: "xs \<noteq> [] \<Longrightarrow> join sep (xs @ [s]) = join sep xs @ sep @ s"
  by (induction sep xs rule: join.induct) auto

lemma path_is_joined_slugs:
  "ancestry rows p ns \<Longrightarrow> \<forall>m \<in> set (p # ns). path_inv rows m
     \<Longrightarrow> path p = join DELIMETER (map slug (ns @ [p]))"
proof (induction rule: ancestry.induct)
  case (ancestry_root p)
  then show ?case by (simp add: path_inv_def)
next
  case (ancestry_step p q p' ns)
  have "path p' = join DELIMETER (map slug (ns @ [p']))"
    by (rule ancestry_step.IH) (use ancestry_step.prems in auto)
  moreover have "path p = path p' @ DELIMETER @ slug p"
    using ancestry_step.prems ancestry_step.hyps(1,2) by (simp add: path_inv_def)
  ultimately show ?case
    using join_snoc2 [of "map slug (ns @ [p'])" DELIMETER "slug p"] by simp
qed

lemma branch_paths_snoc:
  "branch_paths psf (ss @ [s]) = branch_paths psf ss @ [join DELIMETER (psf @ ss @ [s])]"
  by (induction ss arbitrary: psf) auto

lemma chain_paths_are_branch_paths:
  "ancestry rows p ns \<Longrightarrow> \<forall>m \<in> set (p # ns). path_inv rows m
     \<Longrightarrow> map path (ns @ [p]) = branch_paths [] (map slug (ns @ [p]))"
proof (induction rule: ancestry.induct)
  case (ancestry_root p)
  then show ?case by (simp add: path_inv_def)
next
  case (ancestry_step p q p' ns)
  have ih: "map path (ns @ [p']) = branch_paths [] (map slug (ns @ [p']))"
    by (rule ancestry_step.IH) (use ancestry_step.prems in auto)
  have "ancestry rows p (ns @ [p'])"
    by (rule ancestry.ancestry_step [OF ancestry_step.hyps])
  from path_is_joined_slugs [OF this ancestry_step.prems]
  have "path p = join DELIMETER (map slug ((ns @ [p']) @ [p]))" .
  with ih show ?case
    using branch_paths_snoc [of "[]" "map slug (ns @ [p'])" "slug p"] by simp
qed

lemma ancestry_stored: "ancestry rows p ns \<Longrightarrow> set ns \<subseteq> set rows"
  by (induction rule: ancestry.induct) (auto dest: get_pk_SomeD)

lemma branch_paths_extend:
  "x \<in> set (branch_paths psf ss) \<Longrightarrow> psf \<noteq> [] \<Longrightarrow> \<exists>t. t \<noteq> [] \<and> x = join DELIMETER psf @ t"
proof (induction ss arbitrary: psf)
  case Nil
  then show ?case by simp
next
  case (Cons s ss)
  show ?case
  proof (cases "x = join DELIMETER (psf @ [s])")
    case True
    then show ?thesis
      using join_snoc2 [OF Cons.prems(2), of DELIMETER s] by (simp add: DELIMETER_def)
  next
    case False
    with Cons.prems(1) have "x \<in> set (branch_paths (psf @ [s]) ss)" by simp
    from Cons.IH [OF this] obtain t where "t \<noteq> []" "x = join DELIMETER (psf @ [s]) @ t"
      by auto
    then show ?thesis
      using join_snoc2 [OF Cons.prems(2), of DELIMETER s] by simp
  qed
qed

lemma less_append: "t \<noteq> [] \<Longrightarrow> (u :: string) < u @ t"
  by (induction u) (cases t; simp)+

lemma branch_paths_increasing: "sorted_wrt (<) (branch_paths psf ss)"
proof (induction ss arbitrary: psf)
  case Nil
  then show ?case by simp
next
  case (Cons s ss)
  have "\<forall>x \<in> set (branch_paths (psf @ [s]) ss). join DELIMETER (psf @ [s]) < x"
    using branch_paths_extend [of _ "psf @ [s]" ss] less_append by fastforce
  with Cons.IH [of "psf @ [s]"] show ?case by simp
qed


lemma sorted_wrt_less_sorted:
  "sorted_wrt (<) (xs :: 'a :: linorder list) \<Longrightarrow> sorted xs \<and> distinct xs"
  by (simp add: strict_sorted_iff)

lemma sort_key_chain:
  assumes "distinct rows" and "inj_on f (set rows)" and "set chain \<subseteq> set rows"
    and "sorted_wrt (<) (map f chain)"
  shows "sort_key f (filter (\<lambda>r. f r \<in> set (map f chain)) rows) = chain"
proof -
  have sd: "sorted (map f chain)" and dm: "distinct (map f chain)"
    using sorted_wrt_less_sorted [OF assms(4)] by auto
  have dc: "distinct chain"
    using dm by (simp add: distinct_map)
  have same: "f r \<in> set (map f chain) \<longleftrightarrow> r \<in> set chain" if "r \<in> set rows" for r
    using that assms(2,3) by (auto dest: inj_onD)
  have "filter (\<lambda>r. f r \<in> set (map f chain)) rows = filter (\<lambda>r. r \<in> set chain) rows"
    by (rule filter_cong) (use same in auto)
  moreover have "mset (filter (\<lambda>r. r \<in> set chain) rows) = mset chain"
  proof (rule iffD1 [OF set_eq_iff_mset_eq_distinct])
    show "distinct (filter (\<lambda>r. r \<in> set chain) rows)" using assms(1) by simp
    show "distinct chain" by (rule dc)
    show "set (filter (\<lambda>r. r \<in> set chain) rows) = set chain" using assms(3) by auto
  qed
  ultimately have m: "mset (filter (\<lambda>r. f r \<in> set (map f chain)) rows) = mset chain"
    by simp
  have inj: "inj_on f (set (filter (\<lambda>r. f r \<in> set (map f chain)) rows))"
    by (rule inj_on_subset [OF assms(2)]) auto
  have "sort_key f (filter (\<lambda>r. f r \<in> set (map f chain)) rows) = sort_key f chain"
    by (rule sort_key_permutation [OF m inj])
  also have "\<dots> = chain"
    using sd by (rule sort_key_id_if_sorted)
  finally show ?thesis .
qed

lemma keyed_distinct: "keyed rows \<Longrightarrow> distinct rows"
  by (auto simp: keyed_def distinct_map)

lemma keyed_same_pk: "keyed rows \<Longrightarrow> a \<in> set rows \<Longrightarrow> b \<in> set rows \<Longrightarrow> pk a = pk b \<Longrightarrow> a = b"
  by (auto simp: keyed_def distinct_map dest: inj_onD)

text \<open>
  C8, as the code has it.  Let the stored node \<open>n\<close> have the ancestors \<open>ns\<close>, oldest first,
  in a table whose keys and whose paths identify the rows, let \<open>n\<close> and its ancestors
  satisfy I1 and I2, and let none of their slugs contain the delimiter or end with a colon.
  Then \<open>travel_up\<close> returns the ancestors without \<open>n\<close>, the youngest first, and \<open>parents\<close>
  returns them the oldest first, which is the reverse.
\<close>

theorem travel_up_is_ancestor_chain:
  assumes "keyed rows" and "inj_on path (set rows)" and "n \<in> set rows"
    and "ancestry rows n ns"
    and "\<forall>m \<in> set (n # ns). path_inv rows m"
    and "\<forall>m \<in> set (n # ns). plain (slug m)"
  shows "travel_up rows n = rev ns \<and> parents rows n = ns"
proof -
  let ?chain = "ns @ [n]"
  have paths: "map path ?chain = branch_paths [] (map slug ?chain)"
    by (rule chain_paths_are_branch_paths [OF assms(4,5)])
  have "path n = join DELIMETER (map slug ?chain)"
    by (rule path_is_joined_slugs [OF assms(4,5)])
  then have split: "split_delim [] (path n) = map slug ?chain"
    using split_delim_join [of "map slug ?chain"] assms(6) by auto
  have inc: "sorted_wrt (<) (map path ?chain)"
    unfolding paths by (rule branch_paths_increasing)
  have sub: "set ?chain \<subseteq> set rows"
    using ancestry_stored [OF assms(4)] assms(3) by simp
  have "sort_key path (filter (\<lambda>r. path r \<in> set (map path ?chain)) rows) = ?chain"
    by (rule sort_key_chain [OF keyed_distinct [OF assms(1)] assms(2) sub inc])
  moreover have "branch_paths [] (split_delim [] (path n)) = map path ?chain"
    by (simp only: split paths)
  ultimately have "branch rows n = rev ?chain"
    by (simp only: branch_def)
  then have br: "branch rows n = n # rev ns"
    by simp
  have "distinct (map path ?chain)"
    using sorted_wrt_less_sorted [OF inc] by simp
  then have "\<forall>m \<in> set ns. m \<noteq> n"
    by auto
  then have "\<forall>m \<in> set ns. pk m \<noteq> pk n"
    using keyed_same_pk [OF assms(1) _ assms(3)] sub by auto
  then have "filter (\<lambda>r. pk r \<noteq> pk n) (rev ns) = rev ns"
    by (simp add: filter_id_conv)
  then show ?thesis
    by (simp add: travel_up_def parents_def br)
qed

theorem travel_up_is_ancestor_chain_witness:
  "keyed abc \<and> inj_on path (set abc) \<and> cat 3 ''c'' (Some 2) ''a::b::c'' \<in> set abc \<and>
   ancestry abc (cat 3 ''c'' (Some 2) ''a::b::c'') [cat 1 ''a'' None ''a'', cat 2 ''b'' (Some 1) ''a::b''] \<and>
   path_inv abc (cat 1 ''a'' None ''a'') \<and> path_inv abc (cat 2 ''b'' (Some 1) ''a::b'') \<and>
   path_inv abc (cat 3 ''c'' (Some 2) ''a::b::c'') \<and>
   plain ''a'' \<and> plain ''b'' \<and> plain ''c'' \<and>
   travel_up abc (cat 3 ''c'' (Some 2) ''a::b::c'') = [cat 2 ''b'' (Some 1) ''a::b'', cat 1 ''a'' None ''a''] \<and>
   parents abc (cat 3 ''c'' (Some 2) ''a::b::c'') = [cat 1 ''a'' None ''a'', cat 2 ''b'' (Some 1) ''a::b'']"
proof -
  have k: "keyed abc" by code_simp
  have i: "inj_on path (set abc)" by (simp add: abc_def cat_def)
  have m: "cat 3 ''c'' (Some 2) ''a::b::c'' \<in> set abc" by (simp add: abc_def)
  have pi: "path_inv abc (cat 1 ''a'' None ''a'')" "path_inv abc (cat 2 ''b'' (Some 1) ''a::b'')"
    "path_inv abc (cat 3 ''c'' (Some 2) ''a::b::c'')"
    by code_simp+
  have pl: "plain ''a''" "plain ''b''" "plain ''c''"
    by code_simp+
  have h1: "\<forall>m \<in> set (cat 3 ''c'' (Some 2) ''a::b::c'' # [cat 1 ''a'' None ''a'', cat 2 ''b'' (Some 1) ''a::b'']). path_inv abc m"
    using pi by simp
  have h2: "\<forall>m \<in> set (cat 3 ''c'' (Some 2) ''a::b::c'' # [cat 1 ''a'' None ''a'', cat 2 ''b'' (Some 1) ''a::b'']). plain (slug m)"
    using pl by (simp add: cat_def)
  show ?thesis
    using k i m ancestry_abc_3 pi pl travel_up_is_ancestor_chain [OF k i m ancestry_abc_3 h1 h2]
    by simp
qed

text \<open>
  C8 as it is stated fails: the path \<open>a:::b\<close> of the child of the root \<open>a:\<close> is consistent
  with its chain, but \<open>branch\<close> splits it into \<open>a\<close> and \<open>:b\<close> and looks for the path \<open>a\<close>,
  so \<open>travel_up\<close> and \<open>parents\<close> miss the root.
\<close>

theorem travel_up_counterexample:
  "keyed colons \<and> colon_child \<in> set colons \<and>
   path_inv colons colon_root \<and> path_inv colons colon_child \<and>
   \<not> has_delim (slug colon_root) \<and> \<not> has_delim (slug colon_child) \<and>
   ancestry colons colon_child [colon_root] \<and>
   travel_up colons colon_child = [] \<and> parents colons colon_child = []"
proof -
  have r: "ancestry colons colon_root []"
    by (rule ancestry_root) (simp add: cat_def colon_root_def)
  have g: "get_pk colons 1 = Some colon_root"
    by (simp add: colons_def get_pk_def colon_root_def cat_def)
  have a: "ancestry colons colon_child ([] @ [colon_root])"
    by (rule ancestry_step [OF _ g r]) (simp add: colon_child_def cat_def)
  have e: "keyed colons" "colon_child \<in> set colons"
    "path_inv colons colon_root" "path_inv colons colon_child"
    "\<not> has_delim (slug colon_root)" "\<not> has_delim (slug colon_child)"
    "travel_up colons colon_child = []" "parents colons colon_child = []"
    by code_simp+
  from a e show ?thesis by simp
qed

section \<open>The cascade of \<open>save\<close>\<close>

lemma skel_fields:
  "skel a = skel b \<Longrightarrow> pk a = pk b \<and> parent a = parent b \<and> slug a = slug b"
  by (cases a, cases b) (simp add: skel_def)

lemma skel_path_eq: "skel a = skel b \<Longrightarrow> path a = path b \<Longrightarrow> a = b"
  by (cases a, cases b) (simp add: skel_def)

lemma skel_path_update [simp]: "skel (r\<lparr>path := p\<rparr>) = skel r"
  by (simp add: skel_def)

lemma get_pk_skel:
  assumes "map skel rows' = map skel rows"
  shows "map_option skel (get_pk rows' q) = map_option skel (get_pk rows q)"
proof -
  have "map_option skel (get_pk xs q) = find (\<lambda>s. pk s = Some q) (map skel xs)" for xs
    by (induction xs) (simp_all add: get_pk_def skel_def)
  with assms show ?thesis by simp
qed

lemma get_pk_skel_cases:
  assumes "map skel rows' = map skel rows"
  shows "(get_pk rows' q = None \<and> get_pk rows q = None) \<or>
         (\<exists>r' r. get_pk rows' q = Some r' \<and> get_pk rows q = Some r \<and> skel r' = skel r)"
  using get_pk_skel [OF assms, of q]
  by (cases "get_pk rows' q"; cases "get_pk rows q") auto

lemma walk_skel:
  "map skel rows' = map skel rows \<Longrightarrow> parent p' = parent p
     \<Longrightarrow> walk rows' seen p' pth = walk rows seen p pth"
proof (induction rows seen p pth arbitrary: p' rule: walk.induct)
  case (1 rows seen p pth)
  show ?case
  proof (cases "parent p")
    case None
    with "1.prems" show ?thesis by (simp add: walk.simps)
  next
    case (Some q)
    from get_pk_skel_cases [OF "1.prems"(1), of q] show ?thesis
    proof (elim disjE conjE exE)
      assume "get_pk rows' q = None" "get_pk rows q = None"
      with Some "1.prems" show ?thesis by (simp add: walk.simps)
    next
      fix r' r
      assume g: "get_pk rows' q = Some r'" "get_pk rows q = Some r" and s: "skel r' = skel r"
      note f = skel_fields [OF s]
      show ?thesis
      proof (cases "pk r \<in> set seen")
        case True
        with Some g f "1.prems" show ?thesis
          by (subst walk.simps, subst (2) walk.simps) simp
      next
        case False
        have "walk rows' (pk r # seen) r' (slug r @ DELIMETER @ pth)
              = walk rows (pk r # seen) r (slug r @ DELIMETER @ pth)"
          by (rule "1.IH" [OF Some g(2) False "1.prems"(1)]) (simp add: f)
        with False Some g f "1.prems" show ?thesis
          by (subst walk.simps, subst (2) walk.simps) simp
      qed
    qed
  qed
qed

lemma compute_path_skel:
  "map skel rows' = map skel rows \<Longrightarrow> skel c' = skel c
     \<Longrightarrow> compute_path rows' c' = compute_path rows c"
  using walk_skel [of rows' rows c' c "[pk c]" "slug c"] skel_fields [of c' c]
  by (simp add: compute_path_def)

lemma descends_skel:
  assumes "map skel rows' = map skel rows" and "descends rows k q"
  shows "descends rows' k q"
  using assms(2)
proof (induction rule: descends.induct)
  case (descends_self r)
  with get_pk_skel_cases [OF assms(1), of k] show ?case
    by (auto intro: descends.descends_self)
next
  case (descends_child q r q')
  from get_pk_skel_cases [OF assms(1), of q] descends_child.hyps(1)
  obtain r' where "get_pk rows' q = Some r'" "skel r' = skel r"
    by auto
  with descends_child show ?case
    using skel_fields [of r' r] by (auto intro: descends.descends_child)
qed

lemma map_pk_skel:
  assumes "map skel rows' = map skel rows"
  shows "map pk rows' = map pk rows"
proof -
  have "map pk xs = map pk (map skel xs)" for xs
    by (simp add: skel_def comp_def)
  from this [of rows'] this [of rows] assms show ?thesis
    by (simp only:)
qed

lemma keyed_skel: "map skel rows' = map skel rows \<Longrightarrow> keyed rows \<Longrightarrow> keyed rows'"
  using map_pk_skel [of rows' rows] by (simp add: keyed_def)

lemma settled_refl: "settled rows0 rows rows"
  by (simp add: settled_def list_all2_same)

lemma settled_trans:
  assumes "settled rows0 rows rows'" and "settled rows0 rows' rows''"
  shows "settled rows0 rows rows''"
  unfolding settled_def list_all2_conv_all_nth
proof (intro conjI allI impI)
  show "length rows = length rows''"
    using assms by (simp add: settled_def list_all2_conv_all_nth)
next
  fix i
  assume i: "i < length rows"
  then have i': "i < length rows'"
    using assms(1) by (simp add: settled_def list_all2_conv_all_nth)
  have a: "skel (rows' ! i) = skel (rows ! i)" "rows' ! i = rows ! i \<or> computed rows0 (rows' ! i)"
    using assms(1) i by (simp_all add: settled_def list_all2_conv_all_nth)
  have b: "skel (rows'' ! i) = skel (rows' ! i)" "rows'' ! i = rows' ! i \<or> computed rows0 (rows'' ! i)"
    using assms(2) i' by (simp_all add: settled_def list_all2_conv_all_nth)
  show "skel (rows'' ! i) = skel (rows ! i)"
    using a(1) b(1) by simp
  show "rows'' ! i = rows ! i \<or> computed rows0 (rows'' ! i)"
    using a(2) b(2) by auto
qed

lemma settled_skel:
  assumes "settled rows0 rows rows'"
  shows "map skel rows' = map skel rows"
proof (rule nth_equalityI)
  show "length (map skel rows') = length (map skel rows)"
    using assms by (simp add: settled_def list_all2_conv_all_nth)
next
  fix i
  assume "i < length (map skel rows')"
  then show "map skel rows' ! i = map skel rows ! i"
    using assms by (simp add: settled_def list_all2_conv_all_nth)
qed

lemma descends_via_child:
  "descends rows k q \<Longrightarrow>
     q = k \<or> (\<exists>ch kc. get_pk rows kc = Some ch \<and> parent ch = Some k \<and> descends rows kc q)"
proof (induction rule: descends.induct)
  case (descends_self r)
  then show ?case by simp
next
  case (descends_child q r q')
  from descends_child.IH show ?case
  proof
    assume "q' = k"
    with descends_child.hyps(1,2) descends_self [OF descends_child.hyps(1)] show ?thesis
      by blast
  next
    assume "\<exists>ch kc. get_pk rows kc = Some ch \<and> parent ch = Some k \<and> descends rows kc q'"
    then obtain ch kc where c: "get_pk rows kc = Some ch" "parent ch = Some k" "descends rows kc q'"
      by blast
    have "descends rows kc q"
      by (rule descends.descends_child [OF descends_child.hyps(1,2) c(3)])
    with c show ?thesis by blast
  qed
qed

lemma in_children: "pk c = Some k \<Longrightarrow> d \<in> set rows \<Longrightarrow> parent d = Some k \<Longrightarrow> d \<in> set (children rows c)"
  by (simp add: children_def)

lemma children_stored: "c \<in> set (children rows self) \<Longrightarrow> c \<in> set rows"
  by (simp add: children_def)

lemma settled_keeps:
  assumes "settled rows0 rows rows'" and "d \<in> set rows'"
  shows "\<exists>d1 \<in> set rows. skel d = skel d1 \<and> (d = d1 \<or> computed rows0 d)"
proof -
  from assms(2) obtain i where i: "i < length rows'" "rows' ! i = d"
    by (auto simp: in_set_conv_nth)
  have len: "length rows = length rows'"
    using assms(1) by (simp add: settled_def list_all2_conv_all_nth)
  have "skel (rows' ! i) = skel (rows ! i) \<and> (rows' ! i = rows ! i \<or> computed rows0 (rows' ! i))"
    using assms(1) i(1) len by (simp add: settled_def list_all2_conv_all_nth)
  moreover have "rows ! i \<in> set rows"
    using i(1) len by simp
  ultimately show ?thesis
    using i(2) by blast
qed

lemma skel_counterpart:
  assumes "map skel rows' = map skel rows" and "r \<in> set rows"
  shows "\<exists>r' \<in> set rows'. skel r' = skel r"
proof -
  have "skel r \<in> set (map skel rows)" using assms(2) by simp
  then have "skel r \<in> set (map skel rows')" using assms(1) by simp
  then show ?thesis by auto
qed

lemma below_skel: "skel a = skel b \<Longrightarrow> below rows k a = below rows k b"
  using skel_fields [of a b] by (simp add: below_def)

lemma keyed_pk: "keyed rows \<Longrightarrow> r \<in> set rows \<Longrightarrow> \<exists>k. pk r = Some k"
proof (cases "pk r")
  case None
  assume "keyed rows" "r \<in> set rows"
  with None show ?thesis by (force simp: keyed_def)
qed simp

lemma super_save_stored:
  assumes "keyed rows" and "r \<in> set rows" and "pk c = pk r"
    and "super_save rows c = Inr (rows1, c1)"
  shows "c1 = c \<and> rows1 = map (\<lambda>x. if pk x = pk c then c else x) rows"
proof -
  from keyed_pk [OF assms(1,2)] obtain k where k: "pk r = Some k"
    by blast
  with assms(2,3,4) show ?thesis
    by (auto simp: super_save_def Let_def split: if_splits)
qed

lemma settled_write:
  assumes "keyed rows" and "map skel rows = map skel rows0"
    and "r \<in> set rows" and "skel r = skel c" and "compute_path rows c = Inr p"
  shows "settled rows0 rows (map (\<lambda>x. if pk x = pk c then c\<lparr>path := p\<rparr> else x) rows)"
proof -
  have ok: "computed rows0 (c\<lparr>path := p\<rparr>)"
    using compute_path_skel [OF assms(2) [symmetric], of "c\<lparr>path := p\<rparr>" c] assms(5)
    by (simp add: computed_def)
  have "skel (c\<lparr>path := p\<rparr>) = skel x" if "x \<in> set rows" "pk x = pk c" for x
  proof -
    have "pk x = pk r" using that(2) skel_fields [OF assms(4)] by simp
    then have "x = r" by (rule keyed_same_pk [OF assms(1) that(1) assms(3)])
    with assms(4) show ?thesis by simp
  qed
  with ok show ?thesis
    unfolding settled_def list_all2_map2 by (intro list_all2_same [THEN iffD2]) auto
qed

lemma computed_written:
  assumes "map skel rows = map skel rows0" and "compute_path rows c = Inr p"
  shows "computed rows0 (c\<lparr>path := p\<rparr>)"
  using compute_path_skel [OF assms(1) [symmetric], of "c\<lparr>path := p\<rparr>" c] assms(2)
  by (simp add: computed_def)

lemma cascaded_step:
  assumes "cascaded rows0 rows rows1 K1" and "cascaded rows0 rows1 rows' K2"
  shows "cascaded rows0 rows rows' (K1 \<union> K2)"
  unfolding cascaded_def
proof (intro conjI ballI impI)
  show "settled rows0 rows rows'"
    using assms by (auto simp: cascaded_def intro: settled_trans)
next
  fix d k
  assume d: "d \<in> set rows'" and k: "k \<in> K1 \<union> K2" and b: "pk d = Some k \<or> below rows0 k d"
  show "computed rows0 d"
  proof (cases "k \<in> K2")
    case True
    with assms(2) d b show ?thesis by (auto simp: cascaded_def)
  next
    case False
    with k have k1: "k \<in> K1" by simp
    from assms(2) d obtain d1 where d1: "d1 \<in> set rows1" "skel d = skel d1" "d = d1 \<or> computed rows0 d"
      using settled_keeps [of rows0 rows1 rows' d] by (auto simp: cascaded_def)
    have "pk d1 = Some k \<or> below rows0 k d1"
      using b d1(2) skel_fields [OF d1(2)] below_skel [OF d1(2)] by auto
    with assms(1) d1(1) k1 have "computed rows0 d1"
      by (auto simp: cascaded_def)
    with d1(3) show ?thesis by auto
  qed
qed

lemma cascaded_parent:
  assumes keyed1: "keyed rows1" and c1: "c1 \<in> set rows1" and pkc1: "pk c1 = Some k"
    and ok: "computed rows0 c1" and sk1: "map skel rows1 = map skel rows0"
    and casc: "cascaded rows0 rows1 rows' {k. \<exists>c \<in> set (children rows1 c1). pk c = Some k}"
    and d: "d \<in> set rows'" and b: "pk d = Some k \<or> below rows0 k d"
  shows "computed rows0 d"
proof -
  from casc d obtain d1 where d1: "d1 \<in> set rows1" "skel d = skel d1" "d = d1 \<or> computed rows0 d"
    using settled_keeps [of rows0 rows1 rows' d] by (auto simp: cascaded_def)
  note f = skel_fields [OF d1(2)]
  from b show ?thesis
  proof
    assume "pk d = Some k"
    with f pkc1 have "pk d1 = pk c1" by simp
    then have "d1 = c1"
      by (rule keyed_same_pk [OF keyed1 d1(1) c1])
    with ok d1(3) show ?thesis by auto
  next
    assume "below rows0 k d"
    then obtain q where q: "parent d = Some q" "descends rows0 k q"
      by (auto simp: below_def split: option.splits)
    from descends_via_child [OF q(2)] show ?thesis
    proof (elim disjE exE conjE)
      assume "q = k"
      with q(1) f have "parent d1 = Some k" by simp
      then have m: "d1 \<in> set (children rows1 c1)"
        by (rule in_children [OF pkc1 d1(1)])
      from keyed_pk [OF keyed1 d1(1)] obtain kd where kd: "pk d1 = Some kd"
        by blast
      with f have "pk d = Some kd" by simp
      with casc d m kd show ?thesis
        by (auto simp: cascaded_def)
    next
      fix ch kc
      assume g: "get_pk rows0 kc = Some ch" and pc: "parent ch = Some k"
        and dc: "descends rows0 kc q"
      from get_pk_SomeD [OF g] have "ch \<in> set rows0" "pk ch = Some kc"
        by simp_all
      with skel_counterpart [OF sk1, of ch] obtain ch1
        where ch1: "ch1 \<in> set rows1" "skel ch1 = skel ch"
        by blast
      have "parent ch1 = Some k" "pk ch1 = Some kc"
        using skel_fields [OF ch1(2)] pc \<open>pk ch = Some kc\<close> by simp_all
      then have m: "ch1 \<in> set (children rows1 c1)" "pk ch1 = Some kc"
        using in_children [OF pkc1 ch1(1)] by simp_all
      have "below rows0 kc d"
        using q(1) dc by (simp add: below_def)
      with casc d m show ?thesis
        by (auto simp: cascaded_def)
    qed
  qed
qed

lemma cascade_save:
  "keyed rows0 \<Longrightarrow> map skel rows = map skel rows0 \<Longrightarrow> \<exists>r \<in> set rows. skel r = skel self
     \<Longrightarrow> save fuel rows self = (rows', Inr c')
     \<Longrightarrow> cascaded rows0 rows rows' {k. pk self = Some k}"
  and cascade_children: "keyed rows0 \<Longrightarrow> map skel rows = map skel rows0
     \<Longrightarrow> \<forall>c \<in> set cs. \<exists>r \<in> set rows. skel r = skel c
     \<Longrightarrow> save_children fuel rows self cs = (rows', Inr u)
     \<Longrightarrow> cascaded rows0 rows rows' {k. \<exists>c \<in> set cs. pk c = Some k}"
  and cascade_update: "keyed rows0 \<Longrightarrow> map skel rows = map skel rows0 \<Longrightarrow> \<exists>r \<in> set rows. skel r = skel self
     \<Longrightarrow> update_path fuel rows self psf = (rows', Inr c')
     \<Longrightarrow> cascaded rows0 rows rows' {k. pk self = Some k}"
proof (induction fuel rows self and fuel rows self cs and fuel rows self psf
    arbitrary: rows0 rows' c' and rows0 rows' u and rows0 rows' c'
    rule: save_save_children_update_path.induct)
  case (1 fuel rows self)
  from "1.prems"(4) obtain p rows1 c1 u
    where p: "compute_path rows self = Inr p"
      and w: "super_save rows (self\<lparr>path := p\<rparr>) = Inr (rows1, c1)"
      and ch: "save_children fuel rows1 c1 (children rows1 c1) = (rows', Inr u)"
    by (auto split: sum.splits prod.splits)
  from "1.prems"(3) obtain r where r: "r \<in> set rows" "skel r = skel self"
    by blast
  have keyed: "keyed rows"
    by (rule keyed_skel [OF "1.prems"(2) "1.prems"(1)])
  have pkr: "pk (self\<lparr>path := p\<rparr>) = pk r"
    using skel_fields [OF r(2)] by simp
  from super_save_stored [OF keyed r(1) pkr w]
  have c1: "c1 = self\<lparr>path := p\<rparr>"
    and rows1: "rows1 = map (\<lambda>x. if pk x = pk self then self\<lparr>path := p\<rparr> else x) rows"
    by simp_all
  have s1: "settled rows0 rows rows1"
    unfolding rows1 by (rule settled_write [OF keyed "1.prems"(2) r p])
  have sk1: "map skel rows1 = map skel rows0"
    using settled_skel [OF s1] "1.prems"(2) by simp
  have keyed1: "keyed rows1"
    by (rule keyed_skel [OF sk1 "1.prems"(1)])
  have "\<forall>c \<in> set (children rows1 c1). \<exists>r \<in> set rows1. skel r = skel c"
    by (blast dest: children_stored)
  from "1.IH" [OF p w refl "1.prems"(1) sk1 this ch]
  have casc: "cascaded rows0 rows1 rows' {k. \<exists>c \<in> set (children rows1 c1). pk c = Some k}" .
  from keyed_pk [OF keyed r(1)] obtain k where k: "pk self = Some k"
    using skel_fields [OF r(2)] by auto
  have pkc1: "pk c1 = Some k"
    using c1 k by simp
  have mem: "c1 \<in> set rows1"
    unfolding rows1 c1 using r(1) skel_fields [OF r(2)] by force
  have ok: "computed rows0 c1"
    unfolding c1 by (rule computed_written [OF "1.prems"(2) p])
  show ?case
    unfolding cascaded_def
  proof (intro conjI ballI impI)
    show "settled rows0 rows rows'"
      using s1 casc by (auto simp: cascaded_def intro: settled_trans)
  next
    fix d k'
    assume d: "d \<in> set rows'" and "k' \<in> {k. pk self = Some k}"
      and b: "pk d = Some k' \<or> below rows0 k' d"
    then have "k' = k" using k by simp
    with b have "pk d = Some k \<or> below rows0 k d" by simp
    then show "computed rows0 d"
      by (rule cascaded_parent [OF keyed1 mem pkc1 ok sk1 casc d])
  qed
next
  case (2 fuel rows self)
  then show ?case
    by (simp add: cascaded_def settled_refl)
next
  case (3 fuel rows self c cs)
  from "3.prems"(4) obtain rows1 c1
    where up: "update_path fuel rows c (path self) = (rows1, Inr c1)"
      and rest: "save_children fuel rows1 self cs = (rows', Inr u)"
    by (auto split: sum.splits prod.splits)
  have "\<exists>r \<in> set rows. skel r = skel c"
    using "3.prems"(3) by simp
  from "3.IH"(1) [OF "3.prems"(1,2) this up]
  have first: "cascaded rows0 rows rows1 {k. pk c = Some k}" .
  then have sk: "map skel rows1 = map skel rows"
    by (auto simp: cascaded_def dest: settled_skel)
  then have sk1: "map skel rows1 = map skel rows0"
    using "3.prems"(2) by simp
  have stored: "\<forall>c \<in> set cs. \<exists>r \<in> set rows1. skel r = skel c"
  proof
    fix c'
    assume "c' \<in> set cs"
    with "3.prems"(3) obtain r where "r \<in> set rows" "skel r = skel c'"
      by auto
    with skel_counterpart [OF sk, of r] show "\<exists>r \<in> set rows1. skel r = skel c'"
      by auto
  qed
  from "3.IH"(2) [OF up [symmetric] refl "3.prems"(1) sk1 stored rest]
  have second: "cascaded rows0 rows1 rows' {k. \<exists>c \<in> set cs. pk c = Some k}" .
  have "{k. \<exists>c' \<in> set (c # cs). pk c' = Some k}
        = {k. pk c = Some k} \<union> {k. \<exists>c \<in> set cs. pk c = Some k}"
    by auto
  with cascaded_step [OF first second] show ?case
    by simp
next
  case (4 rows self path_so_far)
  then show ?case by simp
next
  case (5 fuel rows self path_so_far)
  have "\<exists>r \<in> set rows. skel r = skel (self\<lparr>path := path_so_far @ DELIMETER @ slug self\<rparr>)"
    using "5.prems"(3) by simp
  from "5.IH" [OF "5.prems"(1,2) this] "5.prems"(4) show ?case
    by simp
qed

lemma walk_transfer:
  "walk rows seen p pth = Inr X \<Longrightarrow> parent p' = parent p
     \<Longrightarrow> \<forall>q r. get_pk rows q = Some r \<and> pk r \<notin> set seen
           \<longrightarrow> get_pk rows' q = Some r \<and> pk r \<notin> set seen'
     \<Longrightarrow> walk rows' seen' p' pth = Inr X"
proof (induction rows seen p pth arbitrary: seen' p' rule: walk.induct)
  case (1 rows seen p pth)
  show ?case
  proof (cases "parent p")
    case None
    with "1.prems" show ?thesis
      by (subst walk.simps, subst (asm) walk.simps) simp
  next
    case (Some q)
    with "1.prems"(1) obtain r where r: "get_pk rows q = Some r" "pk r \<notin> set seen"
      and rec: "walk rows (pk r # seen) r (slug r @ DELIMETER @ pth) = Inr X"
      by (subst (asm) walk.simps) (auto split: option.splits if_splits)
    from r "1.prems"(3) have r': "get_pk rows' q = Some r" "pk r \<notin> set seen'"
      by blast+
    have "walk rows' (pk r # seen') r (slug r @ DELIMETER @ pth) = Inr X"
    proof (rule "1.IH" [OF Some r rec refl])
      show "\<forall>q' r'. get_pk rows q' = Some r' \<and> pk r' \<notin> set (pk r # seen)
           \<longrightarrow> get_pk rows' q' = Some r' \<and> pk r' \<notin> set (pk r # seen')"
        using "1.prems"(3) by auto
    qed
    with Some r' "1.prems"(2) show ?thesis
      by (subst walk.simps) simp
  qed
qed

lemma walk_prefix:
  "walk rows seen p pth = Inr X
     \<Longrightarrow> \<exists>Y. X = Y @ pth \<and> walk rows seen p pth' = Inr (Y @ pth')"
proof (induction rows seen p pth arbitrary: pth' rule: walk.induct)
  case (1 rows seen p pth)
  show ?case
  proof (cases "parent p")
    case None
    with "1.prems" show ?thesis
      by (subst walk.simps, subst (asm) walk.simps) simp
  next
    case (Some q)
    with "1.prems"(1) obtain r where r: "get_pk rows q = Some r" "pk r \<notin> set seen"
      and rec: "walk rows (pk r # seen) r (slug r @ DELIMETER @ pth) = Inr X"
      by (subst (asm) walk.simps) (auto split: option.splits if_splits)
    from "1.IH" [OF Some r rec, of "slug r @ DELIMETER @ pth'"]
    obtain Y where Y: "X = Y @ slug r @ DELIMETER @ pth"
      "walk rows (pk r # seen) r (slug r @ DELIMETER @ pth') = Inr (Y @ slug r @ DELIMETER @ pth')"
      by blast
    have "walk rows seen p pth' = Inr ((Y @ slug r @ DELIMETER) @ pth')"
      using Some r Y(2) by (subst walk.simps) simp
    with Y(1) show ?thesis
      by (intro exI [of _ "Y @ slug r @ DELIMETER"]) simp
  qed
qed

lemma computed_child:
  assumes "computed rows d" and "parent d = Some q" and "get_pk rows q = Some p0"
    and "computed rows p" and "skel p = skel p0"
  shows "path d = path p @ DELIMETER @ slug d"
proof -
  have "walk rows [pk d] d (slug d) = Inr (path d)"
    using assms(1) by (simp add: computed_def compute_path_def)
  with assms(2,3) have long: "walk rows [pk p0, pk d] p0 (slug p0 @ DELIMETER @ slug d) = Inr (path d)"
    by (subst (asm) walk.simps) (auto split: if_splits)
  have "walk rows [pk p0] p0 (slug p0 @ DELIMETER @ slug d) = Inr (path d)"
    by (rule walk_transfer [OF long refl]) auto
  from walk_prefix [OF this, of "slug p0"]
  obtain Y where Y: "path d = Y @ slug p0 @ DELIMETER @ slug d"
    "walk rows [pk p0] p0 (slug p0) = Inr (Y @ slug p0)"
    by blast
  have "compute_path rows p = compute_path rows p0"
    by (rule compute_path_skel [OF refl assms(5)])
  with assms(4) Y(2) have "path p = Y @ slug p0"
    by (simp add: computed_def compute_path_def)
  with Y(1) show ?thesis by simp
qed

lemma fold_max_ge: "a \<le> fold max xs (a :: nat)"
  by (induction xs arbitrary: a) (auto intro: order_trans [OF max.cobounded2])

lemma fold_max_bound: "x \<in> set xs \<Longrightarrow> x \<le> fold max xs (a :: nat)"
proof (induction xs arbitrary: a)
  case Nil
  then show ?case by simp
next
  case (Cons y ys)
  show ?case
  proof (cases "x = y")
    case True
    have "y \<le> max y a" by simp
    also have "\<dots> \<le> fold max ys (max y a)" by (rule fold_max_ge)
    finally show ?thesis using True by simp
  next
    case False
    with Cons show ?thesis by simp
  qed
qed

lemma next_pk_fresh: "r \<in> set rows \<Longrightarrow> pk r \<noteq> Some (next_pk rows)"
proof
  assume r: "r \<in> set rows" and e: "pk r = Some (next_pk rows)"
  have "(case pk r of None \<Rightarrow> 0 | Some k \<Rightarrow> k)
        \<in> set (map (\<lambda>r. case pk r of None \<Rightarrow> 0 | Some k \<Rightarrow> k) rows)"
    using r by simp
  from fold_max_bound [OF this, of 0] e show False
    by (simp add: next_pk_def)
qed

lemma super_save_cases:
  assumes "super_save rows s = Inr (rows1, c1)"
  shows "(\<exists>k. pk c1 = Some k) \<and> parent c1 = parent s \<and> slug c1 = slug s \<and> path c1 = path s \<and>
         (pk s = None \<or> pk c1 = pk s) \<and>
         (pk s = None \<longrightarrow> (\<forall>r \<in> set rows. pk r \<noteq> pk c1)) \<and>
         (rows1 = map (\<lambda>r. if pk r = pk c1 then c1 else r) rows \<and> (\<exists>r \<in> set rows. pk r = pk c1)
          \<or> rows1 = rows @ [c1] \<and> (\<forall>r \<in> set rows. pk r \<noteq> pk c1))"
proof (cases "pk s")
  case None
  with assms have c1: "c1 = s\<lparr>pk := Some (next_pk rows)\<rparr>"
    by (auto simp: super_save_def Let_def split: if_splits)
  have fresh: "\<forall>r \<in> set rows. pk r \<noteq> pk c1"
    unfolding c1 using next_pk_fresh by simp
  with assms None c1 have "rows1 = rows @ [c1]"
    by (auto simp: super_save_def Let_def split: if_splits)
  with None c1 fresh show ?thesis by simp
next
  case (Some k)
  with assms have c1: "c1 = s"
    by (auto simp: super_save_def Let_def split: if_splits)
  from assms Some c1
  have "rows1 = map (\<lambda>r. if pk r = pk c1 then c1 else r) rows \<and> (\<exists>r \<in> set rows. pk r = pk c1)
          \<or> rows1 = rows @ [c1] \<and> (\<forall>r \<in> set rows. pk r \<noteq> pk c1)"
    by (auto simp: super_save_def Let_def split: if_splits)
  with Some c1 show ?thesis by simp
qed

lemma super_save_member:
  assumes "super_save rows s = Inr (rows1, c1)"
  shows "c1 \<in> set rows1"
  using super_save_cases [OF assms] by force

lemma super_save_keyed:
  assumes "keyed rows" and "super_save rows s = Inr (rows1, c1)"
  shows "keyed rows1"
proof -
  from super_save_cases [OF assms(2)] obtain k where k: "pk c1 = Some k"
    and alt: "rows1 = map (\<lambda>r. if pk r = pk c1 then c1 else r) rows
          \<or> rows1 = rows @ [c1] \<and> (\<forall>r \<in> set rows. pk r \<noteq> pk c1)"
    by blast
  from alt show ?thesis
  proof
    assume "rows1 = map (\<lambda>r. if pk r = pk c1 then c1 else r) rows"
    then have "map pk rows1 = map pk rows"
      by (simp add: comp_def cong: map_cong)
    with assms(1) show ?thesis by (simp add: keyed_def)
  next
    assume "rows1 = rows @ [c1] \<and> (\<forall>r \<in> set rows. pk r \<noteq> pk c1)"
    with assms(1) k show ?thesis by (auto simp: keyed_def)
  qed
qed

lemma get_pk_replace:
  "Some q \<noteq> pk c \<Longrightarrow> get_pk (map (\<lambda>r. if pk r = pk c then c else r) rows) q = get_pk rows q"
  by (induction rows) (auto simp: get_pk_def)

lemma get_pk_append: "get_pk rows q = Some r \<Longrightarrow> get_pk (rows @ ys) q = Some r"
  by (induction rows) (auto simp: get_pk_def)

lemma super_save_get:
  assumes "super_save rows s = Inr (rows1, c1)" and "get_pk rows q = Some r" and "pk r \<noteq> pk s"
  shows "get_pk rows1 q = Some r \<and> pk r \<noteq> pk c1"
proof -
  note r = get_pk_SomeD [OF assms(2)]
  from super_save_cases [OF assms(1)]
  have same: "pk s = None \<or> pk c1 = pk s"
    and fresh: "pk s = None \<longrightarrow> (\<forall>r \<in> set rows. pk r \<noteq> pk c1)"
    and alt: "rows1 = map (\<lambda>r. if pk r = pk c1 then c1 else r) rows
          \<or> rows1 = rows @ [c1] \<and> (\<forall>r \<in> set rows. pk r \<noteq> pk c1)"
    by blast+
  have ne: "pk r \<noteq> pk c1"
    using same fresh r assms(3) by auto
  from alt have "get_pk rows1 q = Some r"
  proof
    assume "rows1 = map (\<lambda>r. if pk r = pk c1 then c1 else r) rows"
    with get_pk_replace [of q c1 rows] ne r assms(2) show ?thesis by simp
  next
    assume "rows1 = rows @ [c1] \<and> (\<forall>r \<in> set rows. pk r \<noteq> pk c1)"
    with get_pk_append [OF assms(2)] show ?thesis by simp
  qed
  with ne show ?thesis by simp
qed

lemma get_pk_keyed: "keyed rows \<Longrightarrow> r \<in> set rows \<Longrightarrow> pk r = Some k \<Longrightarrow> get_pk rows k = Some r"
proof -
  assume a: "keyed rows" "r \<in> set rows" "pk r = Some k"
  then obtain r' where r': "get_pk rows k = Some r'"
    by (cases "get_pk rows k") (auto simp: get_pk_def find_None_iff)
  from get_pk_SomeD [OF this] a have "r' = r"
    by (auto intro: keyed_same_pk)
  with r' show ?thesis by simp
qed

lemma descends_stored: "descends rows k q \<Longrightarrow> \<exists>r. get_pk rows q = Some r"
  by (induction rule: descends.induct) auto

lemma save_subtree_computed:
  assumes "keyed rows" and "save fuel rows self = (rows', Inr self')"
  shows "\<exists>k. pk self' = Some k \<and> keyed rows' \<and> get_pk rows' k = Some self' \<and>
           (\<forall>d \<in> set rows'. pk d = Some k \<or> below rows' k d \<longrightarrow> computed rows' d)"
proof -
  from assms(2) obtain p rows1 u
    where p: "compute_path rows self = Inr p"
      and w: "super_save rows (self\<lparr>path := p\<rparr>) = Inr (rows1, self')"
      and ch: "save_children fuel rows1 self' (children rows1 self') = (rows', Inr u)"
    by (auto split: sum.splits prod.splits)
  from super_save_cases [OF w] obtain k where k: "pk self' = Some k"
    and par: "parent self' = parent self" and slg: "slug self' = slug self"
    and pth: "path self' = p"
    by auto
  have keyed1: "keyed rows1"
    by (rule super_save_keyed [OF assms(1) w])
  have mem: "self' \<in> set rows1"
    by (rule super_save_member [OF w])
  have g: "get_pk rows1 q = Some r \<and> pk r \<noteq> pk self'"
    if "get_pk rows q = Some r" "pk r \<noteq> pk self" for q r
    using super_save_get [OF w that(1)] that(2) by simp
  have "walk rows1 [pk self'] self' (slug self) = Inr p"
  proof (rule walk_transfer [OF _ par])
    show "walk rows [pk self] self (slug self) = Inr p"
      using p by (simp add: compute_path_def)
    show "\<forall>q r. get_pk rows q = Some r \<and> pk r \<notin> set [pk self]
           \<longrightarrow> get_pk rows1 q = Some r \<and> pk r \<notin> set [pk self']"
      using g by auto
  qed
  then have ok: "computed rows1 self'"
    by (simp add: computed_def compute_path_def slg pth)
  have "\<forall>c \<in> set (children rows1 self'). \<exists>r \<in> set rows1. skel r = skel c"
    by (blast dest: children_stored)
  from cascade_children [OF keyed1 refl this ch]
  have casc: "cascaded rows1 rows1 rows' {k. \<exists>c \<in> set (children rows1 self'). pk c = Some k}" .
  then have skr: "map skel rows' = map skel rows1"
    by (auto simp: cascaded_def dest: settled_skel)
  have keyed': "keyed rows'"
    by (rule keyed_skel [OF skr keyed1])
  have sub: "computed rows1 d" if "d \<in> set rows'" "pk d = Some k \<or> below rows1 k d" for d
    by (rule cascaded_parent [OF keyed1 mem k ok refl casc that])
  have same: "computed rows' d = computed rows1 d" for d
    using compute_path_skel [OF skr refl, of d] by (simp add: computed_def)
  have bel: "below rows1 k d" if "below rows' k d" for d
    using that descends_skel [OF skr [symmetric]] by (auto simp: below_def split: option.splits)
  have all: "\<forall>d \<in> set rows'. pk d = Some k \<or> below rows' k d \<longrightarrow> computed rows' d"
    using sub bel same by blast
  from skel_counterpart [OF skr, of self'] mem obtain d where d: "d \<in> set rows'" "skel d = skel self'"
    by blast
  then have "pk d = Some k"
    using skel_fields [OF d(2)] k by simp
  with sub [OF d(1)] have "computed rows1 d" by simp
  moreover have "compute_path rows1 d = compute_path rows1 self'"
    by (rule compute_path_skel [OF refl d(2)])
  ultimately have "path d = path self'"
    using ok by (simp add: computed_def)
  with d(2) have "d = self'"
    by (rule skel_path_eq)
  with d(1) have "self' \<in> set rows'" by simp
  then have "get_pk rows' k = Some self'"
    by (rule get_pk_keyed [OF keyed' _ k])
  with k keyed' all show ?thesis by blast
qed

lemma descends_parent_computed:
  assumes "\<forall>d \<in> set rows. pk d = Some k \<or> below rows k d \<longrightarrow> computed rows d"
    and "descends rows k q"
  shows "\<exists>p. get_pk rows q = Some p \<and> computed rows p"
  using assms(2)
proof (cases rule: descends.cases)
  case (descends_self r)
  with get_pk_SomeD [of rows k r] assms(1) show ?thesis by auto
next
  case (descends_child r q')
  then have "below rows k r" by (simp add: below_def)
  with get_pk_SomeD [of rows q r] descends_child(1) assms(1) show ?thesis by auto
qed

text \<open>
  C3.  In a table with unique keys, let \<open>save\<close> return without exception, with \<open>self'\<close>
  the saved node and \<open>k\<close> its key.  Then every row \<open>d\<close> of the resulting table that lies below
  \<open>k\<close> has a stored parent row, and its path is the path of that row, the delimiter and
  its own slug (I2); the row stored under \<open>k\<close> is \<open>self'\<close> with the new path.
\<close>

theorem save_cascade_restores_paths:
  assumes "keyed rows" and "save fuel rows self = (rows', Inr self')"
    and "pk self' = Some k" and "d \<in> set rows'" and "below rows' k d"
  shows "path_inv rows' d \<and> get_pk rows' k = Some self'"
proof -
  from save_subtree_computed [OF assms(1,2)] assms(3)
  have root: "get_pk rows' k = Some self'"
    and all: "\<forall>d \<in> set rows'. pk d = Some k \<or> below rows' k d \<longrightarrow> computed rows' d"
    by auto
  from assms(5) obtain q where q: "parent d = Some q" "descends rows' k q"
    by (auto simp: below_def split: option.splits)
  from descends_parent_computed [OF all q(2)] obtain p
    where p: "get_pk rows' q = Some p" "computed rows' p"
    by blast
  have "computed rows' d"
    using all assms(4,5) by blast
  from computed_child [OF this q(1) p refl] have "path d = path p @ DELIMETER @ slug d" .
  with q(1) p(1) have "path_inv rows' d"
    by (simp add: path_inv_def)
  with root show ?thesis by simp
qed

lemma below_renamed: "below renamed 1 (cat 3 ''c'' (Some 2) ''x::b::c'')"
proof -
  have g1: "get_pk renamed 1 = Some (cat 1 ''x'' None ''x'')"
    and g2: "get_pk renamed 2 = Some (cat 2 ''b'' (Some 1) ''x::b'')"
    by (simp_all add: renamed_def get_pk_def cat_def)
  have "descends renamed 1 2"
    by (rule descends_child [OF g2 _ descends_self [OF g1]]) (simp add: cat_def)
  then show ?thesis by (simp add: below_def cat_def)
qed

lemma save_renamed: "save 7 abc (cat 1 ''x'' None ''a'') = (renamed, Inr (cat 1 ''x'' None ''x''))"
  by code_simp

theorem save_cascade_restores_paths_witness:
  "keyed abc \<and> save 7 abc (cat 1 ''x'' None ''a'') = (renamed, Inr (cat 1 ''x'' None ''x'')) \<and>
   cat 3 ''c'' (Some 2) ''x::b::c'' \<in> set renamed \<and>
   below renamed 1 (cat 3 ''c'' (Some 2) ''x::b::c'') \<and>
   path_inv renamed (cat 3 ''c'' (Some 2) ''x::b::c'') \<and>
   get_pk renamed 1 = Some (cat 1 ''x'' None ''x'')"
proof -
  have k: "keyed abc" by code_simp
  have m: "cat 3 ''c'' (Some 2) ''x::b::c'' \<in> set renamed" by (simp add: renamed_def)
  have p: "pk (cat 1 ''x'' None ''x'') = Some 1" by (simp add: cat_def)
  from k save_renamed m below_renamed
    save_cascade_restores_paths [OF k save_renamed p m below_renamed]
  show ?thesis by simp
qed

section \<open>Depth\<close>

lemma walk_ancestry_result:
  "ancestry rows p ns \<Longrightarrow> walk rows seen p pth = Inr X
     \<Longrightarrow> X = concat (map (\<lambda>n. slug n @ DELIMETER) ns) @ pth"
proof (induction arbitrary: seen pth rule: ancestry.induct)
  case (ancestry_root p)
  then show ?case by (subst (asm) walk.simps) simp
next
  case (ancestry_step p q p' ns)
  from ancestry_step.prems ancestry_step.hyps(1,2)
  have "walk rows (pk p' # seen) p' (slug p' @ DELIMETER @ pth) = Inr X"
    by (subst (asm) walk.simps) (auto split: if_splits)
  from ancestry_step.IH [OF this] show ?case by simp
qed

lemma computed_path_joined:
  assumes "ancestry rows d ns" and "computed rows d"
  shows "path d = join DELIMETER (map slug (ns @ [d]))"
proof -
  have "walk rows [pk d] d (slug d) = Inr (path d)"
    using assms(2) by (simp add: computed_def compute_path_def)
  from walk_ancestry_result [OF assms(1) this] show ?thesis
    by (simp add: join_snoc [of _ "map slug ns"] comp_def)
qed

lemma ancestry_root_iff: "ancestry rows p ns \<Longrightarrow> (ns = [] \<longleftrightarrow> parent p = None)"
  by (auto elim: ancestry.cases)

text \<open>
  C9, as the code has it.  Let the path of \<open>d\<close> be the one that \<open>save\<close> computes for it, or
  let \<open>d\<close> be the saved node or a row below it in the table that a call of \<open>save\<close> with
  its cascade has left.  Let \<open>ns\<close> be the ancestors of \<open>d\<close> and let no slug of \<open>d\<close> and of its
  ancestors contain the delimiter or end with a colon.  Then \<open>depth\<close>, the number of
  delimiters in the path, is the number of ancestors, and it is 0 exactly for a node
  without parent.
\<close>

theorem depth_counts_ancestors:
  assumes "ancestry rows d ns" and "\<forall>m \<in> set (d # ns). plain (slug m)"
    and "computed rows d \<or>
         (\<exists>fuel rows0 self self' k. keyed rows0 \<and> save fuel rows0 self = (rows, Inr self') \<and>
            pk self' = Some k \<and> d \<in> set rows \<and> (pk d = Some k \<or> below rows k d))"
  shows "depth d = count_delim (path d) \<and> depth d = length ns \<and> (depth d = 0 \<longleftrightarrow> parent d = None)"
proof -
  from assms(3) have c: "computed rows d"
  proof
    assume "\<exists>fuel rows0 self self' k. keyed rows0 \<and> save fuel rows0 self = (rows, Inr self') \<and>
            pk self' = Some k \<and> d \<in> set rows \<and> (pk d = Some k \<or> below rows k d)"
    then obtain fuel rows0 self self' k where s: "keyed rows0" "save fuel rows0 self = (rows, Inr self')"
      "pk self' = Some k" "d \<in> set rows" "pk d = Some k \<or> below rows k d"
      by blast
    from save_subtree_computed [OF s(1,2)] s(3,4,5) show ?thesis by auto
  qed simp
  have p: "path d = join DELIMETER (map slug (ns @ [d]))"
    by (rule computed_path_joined [OF assms(1) c])
  have "split_delim [] (path d) = map slug (ns @ [d])"
    unfolding p by (rule split_delim_join) (use assms(2) in auto)
  with count_delim_split [of "path d" "[]"] have "count_delim (path d) = length ns"
    by simp
  with ancestry_root_iff [OF assms(1)] show ?thesis
    by (simp add: depth_def)
qed

theorem depth_counts_ancestors_witness:
  "ancestry abc (cat 3 ''c'' (Some 2) ''a::b::c'') [cat 1 ''a'' None ''a'', cat 2 ''b'' (Some 1) ''a::b''] \<and>
   plain ''a'' \<and> plain ''b'' \<and> plain ''c'' \<and>
   computed abc (cat 3 ''c'' (Some 2) ''a::b::c'') \<and>
   depth (cat 3 ''c'' (Some 2) ''a::b::c'') = 2 \<and>
   ancestry renamed (cat 2 ''b'' (Some 1) ''x::b'') [cat 1 ''x'' None ''x''] \<and> plain ''x'' \<and>
   keyed abc \<and> save 7 abc (cat 1 ''x'' None ''a'') = (renamed, Inr (cat 1 ''x'' None ''x'')) \<and>
   cat 2 ''b'' (Some 1) ''x::b'' \<in> set renamed \<and>
   below renamed 1 (cat 2 ''b'' (Some 1) ''x::b'') \<and>
   depth (cat 2 ''b'' (Some 1) ''x::b'') = 1 \<and>
   ancestry renamed (cat 1 ''x'' None ''x'') [] \<and>
   depth (cat 1 ''x'' None ''x'') = 0"
proof -
  have pl: "plain ''a''" "plain ''b''" "plain ''c''" "plain ''x''"
    by code_simp+
  have c: "computed abc (cat 3 ''c'' (Some 2) ''a::b::c'')"
    by code_simp
  have k: "keyed abc" by code_simp
  have g1: "get_pk renamed 1 = Some (cat 1 ''x'' None ''x'')"
    by (simp add: renamed_def get_pk_def cat_def)
  have a1: "ancestry renamed (cat 1 ''x'' None ''x'') []"
    by (rule ancestry_root) (simp add: cat_def)
  have a2: "ancestry renamed (cat 2 ''b'' (Some 1) ''x::b'') [cat 1 ''x'' None ''x'']"
    using ancestry_step [OF _ g1 a1, of "cat 2 ''b'' (Some 1) ''x::b''"] by (simp add: cat_def)
  have m: "cat 2 ''b'' (Some 1) ''x::b'' \<in> set renamed"
    by (simp add: renamed_def)
  have m1: "cat 1 ''x'' None ''x'' \<in> set renamed"
    by (simp add: renamed_def)
  have b: "below renamed 1 (cat 2 ''b'' (Some 1) ''x::b'')"
    using descends_self [OF g1] by (simp add: below_def cat_def)
  have p: "pk (cat 1 ''x'' None ''x'') = Some 1" by (simp add: cat_def)
  have h3: "\<forall>m \<in> set (cat 3 ''c'' (Some 2) ''a::b::c'' # [cat 1 ''a'' None ''a'', cat 2 ''b'' (Some 1) ''a::b'']). plain (slug m)"
    using pl by (simp add: cat_def)
  have h2: "\<forall>m \<in> set (cat 2 ''b'' (Some 1) ''x::b'' # [cat 1 ''x'' None ''x'']). plain (slug m)"
    using pl by (simp add: cat_def)
  have h1: "\<forall>m \<in> set (cat 1 ''x'' None ''x'' # []). plain (slug m)"
    using pl by (simp add: cat_def)
  have s2: "\<exists>fuel rows0 self self' k. keyed rows0 \<and> save fuel rows0 self = (renamed, Inr self') \<and>
            pk self' = Some k \<and> cat 2 ''b'' (Some 1) ''x::b'' \<in> set renamed \<and>
            (pk (cat 2 ''b'' (Some 1) ''x::b'') = Some k \<or> below renamed k (cat 2 ''b'' (Some 1) ''x::b''))"
    using k save_renamed p m b by blast
  have s1: "\<exists>fuel rows0 self self' k. keyed rows0 \<and> save fuel rows0 self = (renamed, Inr self') \<and>
            pk self' = Some k \<and> cat 1 ''x'' None ''x'' \<in> set renamed \<and>
            (pk (cat 1 ''x'' None ''x'') = Some k \<or> below renamed k (cat 1 ''x'' None ''x''))"
    using k save_renamed p m1 by blast
  from pl c k ancestry_abc_3 a1 a2 m b save_renamed
    depth_counts_ancestors [OF ancestry_abc_3 h3 disjI1 [OF c]]
    depth_counts_ancestors [OF a2 h2 disjI2 [OF s2]]
    depth_counts_ancestors [OF a1 h1 disjI2 [OF s1]]
  show ?thesis by simp
qed

text \<open>
  C9 as it is stated fails: non-empty slugs without the delimiter do not suffice.  The
  child \<open>:b\<close> of the root \<open>a:\<close> is saved with the path \<open>a::::b\<close>, which holds the delimiter
  twice, so its depth is 2 with one ancestor.
\<close>

theorem depth_counts_ancestors_counterexample:
  "save 7 [colon_root] (cat 2 '':b'' (Some 1) []) = ([colon_root, colon_kid], Inr colon_kid) \<and>
   ancestry [colon_root, colon_kid] colon_kid [colon_root] \<and>
   computed [colon_root, colon_kid] colon_kid \<and>
   slug colon_root \<noteq> [] \<and> slug colon_kid \<noteq> [] \<and>
   \<not> has_delim (slug colon_root) \<and> \<not> has_delim (slug colon_kid) \<and>
   depth colon_kid = 2 \<and> count_delim (path colon_kid) = 2 \<and> length [colon_root] = 1"
proof -
  have g: "get_pk [colon_root, colon_kid] 1 = Some colon_root"
    by (simp add: get_pk_def colon_root_def cat_def)
  have r: "ancestry [colon_root, colon_kid] colon_root []"
    by (rule ancestry_root) (simp add: cat_def colon_root_def)
  have a: "ancestry [colon_root, colon_kid] colon_kid ([] @ [colon_root])"
    by (rule ancestry_step [OF _ g r]) (simp add: colon_kid_def cat_def)
  have e: "save 7 [colon_root] (cat 2 '':b'' (Some 1) []) = ([colon_root, colon_kid], Inr colon_kid)"
    "computed [colon_root, colon_kid] colon_kid"
    "slug colon_root \<noteq> []" "slug colon_kid \<noteq> []"
    "\<not> has_delim (slug colon_root)" "\<not> has_delim (slug colon_kid)"
    "depth colon_kid = 2" "count_delim (path colon_kid) = 2"
    by code_simp+
  from a e show ?thesis by simp
qed

section \<open>The cascade stays within the bound on nested calls\<close>

text \<open>
  A node that \<open>save\<close> accepts has an ancestor chain without repeated keys, all of them
  stored, and every step of the cascade goes to a child, whose chain is longer by one.  So
  the nesting of \<open>update_path\<close> never exceeds the number of rows, and with that much
  allowance \<open>save\<close> returns or raises one of the errors of the source.
\<close>

lemma walk_error: "walk rows seen p pth = Inl e \<Longrightarrow> e = DoesNotExist \<or> e = AssertionError"
proof (induction rows seen p pth rule: walk.induct)
  case (1 rows seen p pth)
  from "1.prems" show ?case
    by (subst (asm) walk.simps) (auto split: option.splits if_splits dest: "1.IH")
qed

lemma walk_gives_ancestry:
  "walk rows seen p pth = Inr X
     \<Longrightarrow> \<exists>ns. ancestry rows p ns \<and> distinct (map pk ns) \<and> set (map pk ns) \<inter> set seen = {}"
proof (induction rows seen p pth rule: walk.induct)
  case (1 rows seen p pth)
  show ?case
  proof (cases "parent p")
    case None
    then have "ancestry rows p []" by (rule ancestry_root)
    then show ?thesis by (intro exI [of _ "[]"]) simp
  next
    case (Some q)
    with "1.prems" obtain r where r: "get_pk rows q = Some r" "pk r \<notin> set seen"
      and rec: "walk rows (pk r # seen) r (slug r @ DELIMETER @ pth) = Inr X"
      by (subst (asm) walk.simps) (auto split: option.splits if_splits)
    from "1.IH" [OF Some r rec] obtain ns where ns: "ancestry rows r ns" "distinct (map pk ns)"
      "set (map pk ns) \<inter> set (pk r # seen) = {}"
      by blast
    have "ancestry rows p (ns @ [r])"
      by (rule ancestry_step [OF Some r(1) ns(1)])
    moreover have "distinct (map pk (ns @ [r]))" "set (map pk (ns @ [r])) \<inter> set seen = {}"
      using ns(2,3) r(2) by auto
    ultimately show ?thesis by blast
  qed
qed

lemma ancestry_unique: "ancestry rows p ns \<Longrightarrow> ancestry rows p ns' \<Longrightarrow> ns = ns'"
proof (induction arbitrary: ns' rule: ancestry.induct)
  case (ancestry_root p)
  from ancestry_root.prems ancestry_root.hyps show ?case
    by (cases rule: ancestry.cases) auto
next
  case (ancestry_step p q p' ns)
  from ancestry_step.prems ancestry_step.hyps(1,2) obtain ms
    where "ns' = ms @ [p']" "ancestry rows p' ms"
    by (cases rule: ancestry.cases) auto
  with ancestry_step.IH [of ms] show ?case by simp
qed

lemma ancestry_parent: "ancestry rows p ns \<Longrightarrow> parent p' = parent p \<Longrightarrow> ancestry rows p' ns"
  by (cases rule: ancestry.cases) (auto intro: ancestry.intros)

lemma ancestry_skel:
  assumes "map skel rows' = map skel rows"
  shows "ancestry rows p ns \<Longrightarrow> \<exists>ns'. ancestry rows' p ns' \<and> map skel ns' = map skel ns"
proof (induction rule: ancestry.induct)
  case (ancestry_root p)
  then have "ancestry rows' p []" by (rule ancestry.ancestry_root)
  then show ?case by (intro exI [of _ "[]"]) simp
next
  case (ancestry_step p q p' ns)
  from ancestry_step.IH obtain ms where ms: "ancestry rows' p' ms" "map skel ms = map skel ns"
    by blast
  from get_pk_skel_cases [OF assms, of q] ancestry_step.hyps(2)
  obtain r' where r': "get_pk rows' q = Some r'" "skel r' = skel p'"
    by auto
  have "ancestry rows' r' ms"
    by (rule ancestry_parent [OF ms(1)]) (use skel_fields [OF r'(2)] in simp)
  from ancestry.ancestry_step [OF ancestry_step.hyps(1) r'(1) this] ms(2) r'(2)
  show ?case by (intro exI [of _ "ms @ [r']"]) simp
qed

lemma ancestry_parent_row:
  "ancestry rows p ns \<Longrightarrow> a \<in> set ns \<Longrightarrow> parent a = Some k \<Longrightarrow> get_pk rows k = Some r
     \<Longrightarrow> r \<in> set ns"
proof (induction rule: ancestry.induct)
  case (ancestry_root p)
  then show ?case by simp
next
  case (ancestry_step p q p' ns)
  show ?case
  proof (cases "a \<in> set ns")
    case True
    from ancestry_step.IH [OF True ancestry_step.prems(2,3)] show ?thesis by simp
  next
    case False
    with ancestry_step.prems(1) have "a = p'" by simp
    with ancestry_step.hyps(3) ancestry_step.prems(2,3) show ?thesis
      by (cases rule: ancestry.cases) auto
  qed
qed

lemma keyed_length:
  assumes "keyed rows" and "set xs \<subseteq> set rows" and "distinct (map pk xs)"
  shows "length xs \<le> length rows" and "length rows \<le> length xs \<Longrightarrow> set xs = set rows"
proof -
  have dx: "distinct xs" using assms(3) by (simp add: distinct_map)
  have dr: "distinct rows" by (rule keyed_distinct [OF assms(1)])
  have c: "card (set xs) \<le> card (set rows)"
    by (rule card_mono) (use assms(2) in auto)
  with dx dr show "length xs \<le> length rows"
    by (simp add: distinct_card)
  assume "length rows \<le> length xs"
  with dx dr have "card (set rows) \<le> card (set xs)"
    by (simp add: distinct_card)
  with assms(2) show "set xs = set rows"
    by (intro card_seteq) auto
qed

lemma saturated_no_children:
  assumes "keyed rows" and c0: "c0 \<in> set rows" "skel c0 = skel c"
    and anc: "ancestry rows c ns" and dist: "distinct (map pk (c # ns))"
    and sat: "length rows \<le> length ns + 1"
  shows "children rows c = []"
proof (rule ccontr)
  assume "children rows c \<noteq> []"
  then obtain ch where "ch \<in> set (children rows c)"
    by (cases "children rows c") auto
  then have ch: "ch \<in> set rows" "parent ch = pk c" "pk c \<noteq> None"
    by (auto simp: children_def)
  then obtain k where k: "pk c = Some k" by auto
  note f = skel_fields [OF c0(2)]
  have g: "get_pk rows k = Some c0"
    by (rule get_pk_keyed [OF assms(1) c0(1)]) (use f k in simp)
  have "set (c0 # ns) \<subseteq> set rows"
    using c0(1) ancestry_stored [OF anc] by simp
  moreover have "distinct (map pk (c0 # ns))"
    using dist f by simp
  moreover have "length rows \<le> length (c0 # ns)"
    using sat by simp
  ultimately have "set (c0 # ns) = set rows"
    by (rule keyed_length(2) [OF assms(1)])
  with ch(1) have "ch = c0 \<or> ch \<in> set ns" by auto
  then have "c0 \<in> set ns"
  proof
    assume "ch = c0"
    with ch(2) f k have "parent c = Some k" by simp
    with anc g show ?thesis
      by (cases rule: ancestry.cases) auto
  next
    assume "ch \<in> set ns"
    from ancestry_parent_row [OF anc this _ g] ch(2) k show ?thesis by simp
  qed
  then have "pk c0 \<in> pk ` set ns"
    by (rule imageI)
  then have "pk c \<in> set (map pk ns)"
    using f by simp
  with dist show False by simp
qed

lemma super_save_error: "super_save rows s = Inl e \<Longrightarrow> e = IntegrityError"
  by (auto simp: super_save_def Let_def split: if_splits)

lemma skel_length: "map skel rows' = map skel rows \<Longrightarrow> length rows' = length rows"
  by (rule map_eq_imp_length_eq)

lemma ancestry_moved:
  assumes "map skel rows' = map skel rows" and "ancestry rows p ns"
    and "distinct (map pk (p # ns))" and "parent p' = parent p" and "pk p' = pk p"
  shows "\<exists>ns'. ancestry rows' p' ns' \<and> distinct (map pk (p' # ns')) \<and> length ns' = length ns"
proof -
  from ancestry_skel [OF assms(1,2)] obtain ns' where ns': "ancestry rows' p ns'"
    "map skel ns' = map skel ns"
    by blast
  have "ancestry rows' p' ns'"
    by (rule ancestry_parent [OF ns'(1) assms(4)])
  moreover have "map pk (p' # ns') = map pk (p # ns)"
    using map_pk_skel [OF ns'(2)] assms(5) by simp
  then have "distinct (map pk (p' # ns'))"
    using assms(3) by (simp only:)
  moreover have "length ns' = length ns"
    by (rule skel_length [OF ns'(2)])
  ultimately show ?thesis
    by blast
qed

lemma no_recursion_save:
  "keyed rows \<Longrightarrow> \<exists>r \<in> set rows. skel r = skel self
     \<Longrightarrow> \<forall>ns. ancestry rows self ns \<longrightarrow> length rows \<le> fuel + length ns + 1
     \<Longrightarrow> snd (save fuel rows self) \<noteq> Inl RecursionError"
  and no_recursion_children:
  "keyed rows \<Longrightarrow> \<exists>r \<in> set rows. skel r = skel self
     \<Longrightarrow> \<forall>c \<in> set cs. (\<exists>r \<in> set rows. skel r = skel c) \<and> parent c = pk self
     \<Longrightarrow> \<exists>ns. ancestry rows self ns \<and> distinct (map pk (self # ns))
            \<and> length rows \<le> fuel + length ns + 1
     \<Longrightarrow> snd (save_children fuel rows self cs) \<noteq> Inl RecursionError"
  and no_recursion_update:
  "keyed rows \<Longrightarrow> \<exists>r \<in> set rows. skel r = skel self \<Longrightarrow> 0 < fuel
     \<Longrightarrow> \<forall>ns. ancestry rows self ns \<longrightarrow> length rows \<le> fuel + length ns
     \<Longrightarrow> snd (update_path fuel rows self psf) \<noteq> Inl RecursionError"
proof (induction fuel rows self and fuel rows self cs and fuel rows self psf
    rule: save_save_children_update_path.induct)
  case (1 fuel rows self)
  show ?case
  proof (cases "compute_path rows self")
    case (Inl e)
    then have "e = DoesNotExist \<or> e = AssertionError"
      unfolding compute_path_def by (rule walk_error)
    with Inl show ?thesis by auto
  next
    case (Inr p)
    show ?thesis
    proof (cases "super_save rows (self\<lparr>path := p\<rparr>)")
      case (Inl e)
      with super_save_error [OF Inl] Inr show ?thesis by simp
    next
      case w: (Inr res)
      obtain rows1 c1 where res: "res = (rows1, c1)" by (cases res)
      from "1.prems"(2) obtain r where r: "r \<in> set rows" "skel r = skel self"
        by blast
      have pkr: "pk (self\<lparr>path := p\<rparr>) = pk r"
        using skel_fields [OF r(2)] by simp
      from super_save_stored [OF "1.prems"(1) r(1) pkr w [unfolded res]]
      have c1: "c1 = self\<lparr>path := p\<rparr>"
        and rows1: "rows1 = map (\<lambda>x. if pk x = pk self then self\<lparr>path := p\<rparr> else x) rows"
        by simp_all
      have "settled rows rows rows1"
        unfolding rows1 by (rule settled_write [OF "1.prems"(1) refl r Inr])
      then have sk: "map skel rows1 = map skel rows"
        by (rule settled_skel)
      have keyed1: "keyed rows1"
        by (rule keyed_skel [OF sk "1.prems"(1)])
      have mem: "c1 \<in> set rows1"
        unfolding rows1 c1 using r(1) skel_fields [OF r(2)] by force
      from walk_gives_ancestry [OF Inr [unfolded compute_path_def]]
      obtain ns where ns: "ancestry rows self ns" "distinct (map pk (self # ns))"
        by auto
      from ancestry_moved [OF sk ns, of c1] c1
      obtain ns1 where ns1: "ancestry rows1 c1 ns1" "distinct (map pk (c1 # ns1))"
        "length ns1 = length ns"
        by auto
      have bound: "length rows1 \<le> fuel + length ns1 + 1"
        using "1.prems"(3) ns(1) ns1(3) skel_length [OF sk] by simp
      have "snd (save_children fuel rows1 c1 (children rows1 c1)) \<noteq> Inl RecursionError"
      proof (rule "1.IH" [OF Inr w res [symmetric] keyed1])
        show "\<exists>r \<in> set rows1. skel r = skel c1" using mem by blast
        show "\<forall>c \<in> set (children rows1 c1). (\<exists>r \<in> set rows1. skel r = skel c) \<and> parent c = pk c1"
          by (auto simp: children_def)
        show "\<exists>ns. ancestry rows1 c1 ns \<and> distinct (map pk (c1 # ns))
            \<and> length rows1 \<le> fuel + length ns + 1"
          using ns1(1,2) bound by blast
      qed
      with Inr w res show ?thesis
        by (auto split: prod.splits sum.splits)
    qed
  qed
next
  case (2 fuel rows self)
  then show ?case by simp
next
  case (3 fuel rows self c cs)
  from "3.prems"(2) obtain s0 where s0: "s0 \<in> set rows" "skel s0 = skel self"
    by blast
  note fs = skel_fields [OF s0(2)]
  from keyed_pk [OF "3.prems"(1) s0(1)] fs obtain k where k: "pk self = Some k"
    by auto
  from "3.prems"(3) obtain r where r: "r \<in> set rows" "skel r = skel c" and pc: "parent c = pk self"
    by auto
  from "3.prems"(4) obtain ns where ns: "ancestry rows self ns" "distinct (map pk (self # ns))"
    "length rows \<le> fuel + length ns + 1"
    by blast
  have pos: "0 < fuel"
  proof (rule ccontr)
    assume "\<not> 0 < fuel"
    with ns(3) have "length rows \<le> length ns + 1" by simp
    from saturated_no_children [OF "3.prems"(1) s0 ns(1,2) this]
    have "children rows self = []" .
    moreover have "r \<in> set (children rows self)"
      by (rule in_children [OF k r(1)]) (use skel_fields [OF r(2)] pc k in simp)
    ultimately show False by simp
  qed
  have g: "get_pk rows k = Some s0"
    by (rule get_pk_keyed [OF "3.prems"(1) s0(1)]) (use fs k in simp)
  have "ancestry rows s0 ns"
    by (rule ancestry_parent [OF ns(1)]) (use fs in simp)
  with pc k g have ac: "ancestry rows c (ns @ [s0])"
    by (intro ancestry_step) simp_all
  have cb: "\<forall>ns'. ancestry rows c ns' \<longrightarrow> length rows \<le> fuel + length ns'"
  proof (intro allI impI)
    fix ns'
    assume "ancestry rows c ns'"
    from ancestry_unique [OF this ac] ns(3) show "length rows \<le> fuel + length ns'"
      by simp
  qed
  have rc: "\<exists>r \<in> set rows. skel r = skel c"
    using r by blast
  have first: "snd (update_path fuel rows c (path self)) \<noteq> Inl RecursionError"
    by (rule "3.IH"(1) [OF "3.prems"(1) rc pos cb])
  obtain rows1 y where up: "update_path fuel rows c (path self) = (rows1, y)"
    by (cases "update_path fuel rows c (path self)")
  show ?case
  proof (cases y)
    case (Inl e)
    with up first show ?thesis by simp
  next
    case (Inr c1)
    from cascade_update [OF "3.prems"(1) refl rc up [unfolded Inr]]
    have sk: "map skel rows1 = map skel rows"
      by (auto simp: cascaded_def dest: settled_skel)
    have keyed1: "keyed rows1"
      by (rule keyed_skel [OF sk "3.prems"(1)])
    from ancestry_moved [OF sk ns(1,2) refl refl]
    obtain ns1 where ns1: "ancestry rows1 self ns1" "distinct (map pk (self # ns1))"
      "length ns1 = length ns"
      by blast
    have "snd (save_children fuel rows1 self cs) \<noteq> Inl RecursionError"
    proof (rule "3.IH"(2) [OF up [symmetric] Inr keyed1])
      show "\<exists>r \<in> set rows1. skel r = skel self"
        using skel_counterpart [OF sk s0(1)] s0(2) by auto
      show "\<forall>c \<in> set cs. (\<exists>r \<in> set rows1. skel r = skel c) \<and> parent c = pk self"
      proof
        fix c'
        assume "c' \<in> set cs"
        with "3.prems"(3) obtain r' where "r' \<in> set rows" "skel r' = skel c'" "parent c' = pk self"
          by auto
        with skel_counterpart [OF sk, of r']
        show "(\<exists>r \<in> set rows1. skel r = skel c') \<and> parent c' = pk self"
          by auto
      qed
      show "\<exists>ns. ancestry rows1 self ns \<and> distinct (map pk (self # ns))
            \<and> length rows1 \<le> fuel + length ns + 1"
        using ns1 ns(3) skel_length [OF sk] by auto
    qed
    with up Inr show ?thesis by simp
  qed
next
  case (4 rows self path_so_far)
  then show ?case by simp
next
  case (5 fuel rows self path_so_far)
  have "snd (save fuel rows (self\<lparr>path := path_so_far @ DELIMETER @ slug self\<rparr>))
        \<noteq> Inl RecursionError"
  proof (rule "5.IH" [OF "5.prems"(1)])
    show "\<exists>r \<in> set rows. skel r = skel (self\<lparr>path := path_so_far @ DELIMETER @ slug self\<rparr>)"
      using "5.prems"(2) by simp
    show "\<forall>ns. ancestry rows (self\<lparr>path := path_so_far @ DELIMETER @ slug self\<rparr>) ns
           \<longrightarrow> length rows \<le> fuel + length ns + 1"
    proof (intro allI impI)
      fix ns
      assume "ancestry rows (self\<lparr>path := path_so_far @ DELIMETER @ slug self\<rparr>) ns"
      then have "ancestry rows self ns"
        by (rule ancestry_parent) simp
      with "5.prems"(4) show "length rows \<le> fuel + length ns + 1" by auto
    qed
  qed
  then show ?case by simp
qed

lemma super_save_length:
  assumes "super_save rows s = Inr (rows1, c1)"
  shows "length rows1 \<le> length rows + 1"
  using super_save_cases [OF assms] by auto

text \<open>With an allowance of the number of rows, \<open>save\<close> does not exceed it.\<close>

lemma save_enough_fuel:
  assumes "keyed rows" and "length rows \<le> fuel"
  shows "snd (save fuel rows self) \<noteq> Inl RecursionError"
proof (cases "compute_path rows self")
  case (Inl e)
  then have "e = DoesNotExist \<or> e = AssertionError"
    unfolding compute_path_def by (rule walk_error)
  with Inl show ?thesis by auto
next
  case (Inr p)
  show ?thesis
  proof (cases "super_save rows (self\<lparr>path := p\<rparr>)")
    case (Inl e)
    with super_save_error [OF Inl] Inr show ?thesis by simp
  next
    case w0: (Inr res)
    obtain rows1 c1 where res: "res = (rows1, c1)" by (cases res)
    note w = w0 [unfolded res]
    from super_save_cases [OF w] have par: "parent c1 = parent self"
      by auto
    have keyed1: "keyed rows1"
      by (rule super_save_keyed [OF assms(1) w])
    have mem: "c1 \<in> set rows1"
      by (rule super_save_member [OF w])
    have g: "get_pk rows1 q = Some r \<and> pk r \<noteq> pk c1"
      if "get_pk rows q = Some r" "pk r \<noteq> pk self" for q r
      using super_save_get [OF w that(1)] that(2) by simp
    have "walk rows1 [pk c1] c1 (slug self) = Inr p"
    proof (rule walk_transfer [OF _ par])
      show "walk rows [pk self] self (slug self) = Inr p"
        using Inr by (simp add: compute_path_def)
      show "\<forall>q r. get_pk rows q = Some r \<and> pk r \<notin> set [pk self]
           \<longrightarrow> get_pk rows1 q = Some r \<and> pk r \<notin> set [pk c1]"
        using g by auto
    qed
    from walk_gives_ancestry [OF this]
    obtain ns where ns: "ancestry rows1 c1 ns" "distinct (map pk (c1 # ns))"
      by auto
    have "snd (save_children fuel rows1 c1 (children rows1 c1)) \<noteq> Inl RecursionError"
    proof (rule no_recursion_children [OF keyed1])
      show "\<exists>r \<in> set rows1. skel r = skel c1" using mem by blast
      show "\<forall>c \<in> set (children rows1 c1). (\<exists>r \<in> set rows1. skel r = skel c) \<and> parent c = pk c1"
        by (auto simp: children_def)
      show "\<exists>ns. ancestry rows1 c1 ns \<and> distinct (map pk (c1 # ns))
            \<and> length rows1 \<le> fuel + length ns + 1"
        using ns super_save_length [OF w] assms(2) by (intro exI [of _ ns]) simp
    qed
    with Inr w0 res show ?thesis
      by (auto split: prod.splits sum.splits)
  qed
qed

end
